theory Spec2Isabelle
  imports Main
begin

section \<open>The syntax tree handed over by the TypeScript parser\<close>

text \<open>
  The comment node parser works on a frozen tree built by the TypeScript compiler.
  Only the node kinds that \<^verbatim>\<open>CommentNodeParser.ts\<close> looks at are told apart;
  every other kind is \<open>OtherKind\<close>.
\<close>

datatype SyntaxKind =
    SourceFile | Block | ModuleBlock | CaseClause | DefaultClause
  | ClassDeclaration | InterfaceDeclaration | EnumDeclaration | ClassExpression
  | TypeLiteral | ObjectLiteralExpression
  | SyntaxList | OpenBraceToken | CloseBraceToken | ColonToken | EndOfFileToken
  | JSDocComment | SingleLineCommentTrivia | MultiLineCommentTrivia
  | OtherKind nat

text \<open>
  A node is addressed by a natural number, which stands for the identity of the
  JavaScript object (the keys of the two \<^verbatim>\<open>WeakMap\<close>s, \<^verbatim>\<open>indexOf\<close> and
  \<^verbatim>\<open>===\<close> compare identities). A reference to a node is always valid, so the tree
  is a total function from identities to nodes. Offsets into the source text are
  natural numbers. \<open>elements\<close> is the node array that the source reads as
  \<^verbatim>\<open>statements\<close>, \<^verbatim>\<open>members\<close> or \<^verbatim>\<open>properties\<close>, depending on the kind;
  \<open>getStart\<close> is what \<^verbatim>\<open>getStart(sourceFile)\<close> returns and \<open>getChildren\<close> what
  \<^verbatim>\<open>getChildren(sourceFile)\<close> returns.
\<close>

record ts_node =
  kind :: SyntaxKind
  pos :: nat
  node_end :: nat
  getStart :: nat
  parent :: "nat option"
  getChildren :: "nat list"
  elements :: "nat list"
  jsDoc :: "nat list"

type_synonym tree = "nat \<Rightarrow> ts_node"

datatype error = NotImplementedError | SyntaxListNotFound | TypeError

section \<open>Which nodes are containers\<close>

definition commentNodeParserKinds :: "SyntaxKind set" where
  "commentNodeParserKinds =
     {SourceFile, Block, ModuleBlock, CaseClause, DefaultClause, ClassDeclaration,
      InterfaceDeclaration, EnumDeclaration, ClassExpression, TypeLiteral,
      ObjectLiteralExpression}"

definition shouldParseChildren :: "ts_node \<Rightarrow> bool" where
  "shouldParseChildren container \<longleftrightarrow>
     kind container \<in> commentNodeParserKinds \<and> pos container \<noteq> node_end container"

definition isSyntaxList :: "ts_node \<Rightarrow> bool" where
  "isSyntaxList node \<longleftrightarrow> kind node = SyntaxList"

section \<open>The body start of a container without children\<close>

definition getTokenEnd :: "tree \<Rightarrow> nat \<Rightarrow> SyntaxKind \<Rightarrow> nat option" where
  "getTokenEnd t node k =
     (case find (\<lambda>c. kind (t c) = k) (getChildren (t node)) of
        None \<Rightarrow> None
      | Some token \<Rightarrow> Some (node_end (t token)))"

text \<open>The loop \<^verbatim>\<open>for (let i = children.length - 1; i >= 0; i--)\<close>: the first
  argument counts the children not yet looked at.\<close>

fun findLastSyntaxList_loop :: "tree \<Rightarrow> nat list \<Rightarrow> nat \<Rightarrow> nat option" where
  "findLastSyntaxList_loop t children 0 = None"
| "findLastSyntaxList_loop t children (Suc i) =
     (if kind (t (children ! i)) = SyntaxList then Some (children ! i)
      else findLastSyntaxList_loop t children i)"

definition findLastSyntaxList :: "tree \<Rightarrow> nat \<Rightarrow> nat option" where
  "findLastSyntaxList t node =
     (let children = getChildren (t node)
      in findLastSyntaxList_loop t children (length children))"

definition getLastSyntaxListPos :: "tree \<Rightarrow> nat \<Rightarrow> error + nat" where
  "getLastSyntaxListPos t node =
     (case findLastSyntaxList t node of
        None \<Rightarrow> Inl SyntaxListNotFound
      | Some syntaxList \<Rightarrow> Inr (pos (t syntaxList)))"

definition declarationBodyKinds :: "SyntaxKind set" where
  "declarationBodyKinds =
     {ClassDeclaration, EnumDeclaration, InterfaceDeclaration, TypeLiteral,
      ClassExpression, ObjectLiteralExpression}"

definition getContainerBodyPos :: "tree \<Rightarrow> nat \<Rightarrow> nat \<Rightarrow> error + nat" where
  "getContainerBodyPos t sourceFile container =
     (let k = kind (t container) in
      if k = SourceFile then Inr 0
      else if k \<in> declarationBodyKinds then
        (case getTokenEnd t container OpenBraceToken of
           Some e \<Rightarrow> Inr e
         | None \<Rightarrow> getLastSyntaxListPos t container)
      else if k = ModuleBlock \<or> k = Block then
        Inr (min (getStart (t container) + 1) (node_end (t sourceFile)))
      else if k = CaseClause \<or> k = DefaultClause then
        (case getTokenEnd t container ColonToken of
           Some e \<Rightarrow> Inr e
         | None \<Rightarrow> getLastSyntaxListPos t container)
      else Inl NotImplementedError)"

section \<open>The comment scanner\<close>

text \<open>
  The scanner is created by \<^verbatim>\<open>createCommentScanner\<close> (the module
  \<^verbatim>\<open>./createCommentScanner\<close>) and its tokens are instances of the classes of
  \<^verbatim>\<open>./CompilerComments\<close>. Neither module is among the sources at hand, so this
  section follows the specification: section 3 for the comment token and section 4.1
  for the scanner, a cursor over the source text that yields comment tokens and is
  repositioned by its callers.
\<close>

text \<open>Modelled from the spec: the comment token (\<^verbatim>\<open>CompilerCommentNode\<close>, absent).
  Section 3 gives it \<^verbatim>\<open>fullStart\<close> (the start with the preceding trivia),
  \<^verbatim>\<open>pos\<close> (the start of the significant content) and \<^verbatim>\<open>end\<close>; the source reads
  its \<^verbatim>\<open>kind\<close> and \<^verbatim>\<open>getText()\<close> as well.\<close>

record comment =
  c_kind :: SyntaxKind
  c_fullStart :: nat
  c_pos :: nat
  c_end :: nat
  c_text :: string

text \<open>Modelled from the spec: the state of the scanner (\<^verbatim>\<open>createCommentScanner\<close>,
  absent). Section 4.1 names a cursor position, a full start and a parent.\<close>

record scanner_state =
  sc_pos :: nat
  sc_fullStart :: nat
  sc_parent :: "nat option"

text \<open>\<^verbatim>\<open>sourceFileText[pos]\<close>: reading past the end gives \<^verbatim>\<open>undefined\<close>.\<close>

definition char_at :: "string \<Rightarrow> nat \<Rightarrow> char option" where
  "char_at str p = (if p < length str then Some (str ! p) else None)"

text \<open>Modelled from the spec: what the scanner (absent) takes for a line break and for
  whitespace. Section 4.1 speaks of newlines and trivia without naming characters: a
  line break is a line feed here, and blank, tab, vertical tab, form feed and carriage
  return are whitespace, so that a carriage return in front of a line feed does not count
  as a second line break.\<close>

definition isNewLine :: "char \<Rightarrow> bool" where
  "isNewLine c \<longleftrightarrow> c = CHR 0x0A"

definition isWhitespace :: "char \<Rightarrow> bool" where
  "isWhitespace c \<longleftrightarrow>
     c = CHR '' '' \<or> c = CHR 0x09 \<or> c = CHR 0x0B \<or> c = CHR 0x0C \<or> c = CHR 0x0D"

text \<open>Modelled from the spec: how the scanner (absent) recognizes a comment. A comment
  opens with \<^verbatim>\<open>//\<close> and runs to the end of its line, or opens with \<^verbatim>\<open>/*\<close> and
  runs through the next \<^verbatim>\<open>*/\<close>, to the end of the text when there is none.
  \<open>blockLength\<close> is the length of the rest of a block comment, its closing
  \<^verbatim>\<open>*/\<close> included; \<open>commentAt\<close> gives the kind and the end of the comment that
  opens at an offset, if one does; \<open>createComment\<close> is the token for it, whose
  \<^verbatim>\<open>fullStart\<close> is the full start of the scanner.\<close>

fun blockLength :: "string \<Rightarrow> nat" where
  "blockLength [] = 0"
| "blockLength (c # cs) =
     (if c = CHR ''*'' \<and> (case cs of [] \<Rightarrow> False | d # _ \<Rightarrow> d = CHR ''/'') then 2
      else Suc (blockLength cs))"

definition commentAt :: "string \<Rightarrow> nat \<Rightarrow> (SyntaxKind \<times> nat) option" where
  "commentAt str p =
     (if char_at str p = Some (CHR ''/'') then
        (if char_at str (p + 1) = Some (CHR ''/'') then
           Some (SingleLineCommentTrivia,
                 p + 2 + length (takeWhile (\<lambda>c. \<not> isNewLine c) (drop (p + 2) str)))
         else if char_at str (p + 1) = Some (CHR ''*'') then
           Some (MultiLineCommentTrivia, p + 2 + blockLength (drop (p + 2) str))
         else None)
      else None)"

definition createComment :: "string \<Rightarrow> scanner_state \<Rightarrow> SyntaxKind \<Rightarrow> nat \<Rightarrow> comment" where
  "createComment str s k e =
     \<lparr>c_kind = k, c_fullStart = sc_fullStart s, c_pos = sc_pos s, c_end = e,
      c_text = take (e - sc_pos s) (drop (sc_pos s) str)\<rparr>"

text \<open>\<^verbatim>\<open>getScannerForSourceFile\<close> hands out the one scanner of the source file and
  creates it on the first call. Modelled from the spec: the scanner as
  \<^verbatim>\<open>createCommentScanner\<close> (absent) creates it, at offset 0 and without a parent.\<close>

definition getScannerForSourceFile :: scanner_state where
  "getScannerForSourceFile = \<lparr>sc_pos = 0, sc_fullStart = 0, sc_parent = None\<rparr>"

text \<open>Modelled from the spec: the operations \<^verbatim>\<open>setParent\<close>, \<^verbatim>\<open>setPos\<close>,
  \<^verbatim>\<open>setFullStartAndPos\<close> and \<^verbatim>\<open>getPos\<close> of the scanner (absent), which section
  4.1 lists as repositioning the cursor.\<close>

definition setParent :: "nat \<Rightarrow> scanner_state \<Rightarrow> scanner_state" where
  "setParent newParent s = s\<lparr>sc_parent := Some newParent\<rparr>"

definition setPos :: "nat \<Rightarrow> scanner_state \<Rightarrow> scanner_state" where
  "setPos newPos s = s\<lparr>sc_pos := newPos\<rparr>"

definition setFullStartAndPos :: "nat \<Rightarrow> scanner_state \<Rightarrow> scanner_state" where
  "setFullStartAndPos newPos s = s\<lparr>sc_pos := newPos, sc_fullStart := newPos\<rparr>"

definition getPos :: "scanner_state \<Rightarrow> nat" where
  "getPos s = sc_pos s"

lemma blockLength_le: "blockLength s \<le> length s"
  by (induction s) (auto split: list.splits)

lemma commentAt_bounds:
  assumes "commentAt str p = Some (k, e)"
  shows "p + 2 \<le> e \<and> e \<le> length str"
proof -
  from assms have lt: "p + 1 < length str"
    by (auto simp: commentAt_def char_at_def split: if_splits)
  have 1: "length (takeWhile (\<lambda>c. \<not> isNewLine c) (drop (p + 2) str)) \<le> length str - (p + 2)"
    by (metis length_drop length_takeWhile_le)
  have 2: "blockLength (drop (p + 2) str) \<le> length str - (p + 2)"
    by (metis length_drop blockLength_le)
  from assms lt 1 2 show ?thesis
    by (auto simp: commentAt_def split: if_splits)
qed

text \<open>
  Modelled from the spec: the scans \<^verbatim>\<open>scanUntilNewLineOrToken\<close>,
  \<^verbatim>\<open>scanUntilToken\<close> and \<^verbatim>\<open>scanForNewLines\<close> of the scanner (absent), after
  section 4.1. A generator that is drained is the list of what it yields together with
  the state it leaves. The three scans differ only in what a line break does, so they
  are one loop with a mode. \<^verbatim>\<open>scanUntilNewLineOrToken\<close> stops on the first line break.
  \<^verbatim>\<open>scanUntilToken\<close> passes every line break. \<^verbatim>\<open>scanForNewLines\<close> yields one
  group of comments: whitespace and line breaks in front of the first comment are
  passed over; once a comment has been yielded (\<open>started\<close>), a second line break
  with no comment in between (\<open>newLine\<close>) is a blank line and ends the group. In every
  mode a significant token and the end of the text end the scan, and each comment that
  is passed is yielded with the cursor moved to its end. An empty result of
  \<^verbatim>\<open>scanForNewLines\<close> therefore leaves the cursor on a significant token or at the
  end of the text, as the comment in \<^verbatim>\<open>getCommentNodes\<close> says of the position after
  \<^verbatim>\<open>getLeadingComments\<close>: it ``will be at the first significant token of the next
  node or at the source file length''. The \<^verbatim>\<open>fullStart\<close> of a comment is where the
  scanner was put, or the end of the comment yielded before it.
\<close>

datatype scan_mode = UntilNewLineOrToken | UntilToken | ForNewLines bool bool

fun onNewLine :: "scan_mode \<Rightarrow> scan_mode option" where
  "onNewLine UntilNewLineOrToken = None"
| "onNewLine UntilToken = Some UntilToken"
| "onNewLine (ForNewLines started newLine) =
     (if started \<and> newLine then None else Some (ForNewLines started started))"

fun onComment :: "scan_mode \<Rightarrow> scan_mode" where
  "onComment (ForNewLines started newLine) = ForNewLines True False"
| "onComment m = m"

function scan :: "scan_mode \<Rightarrow> string \<Rightarrow> scanner_state \<Rightarrow> comment list \<times> scanner_state" where
  "scan m str s =
     (case char_at str (sc_pos s) of
        None \<Rightarrow> ([], s)
      | Some c \<Rightarrow>
          if isWhitespace c then scan m str (setPos (Suc (sc_pos s)) s)
          else if isNewLine c then
            (case onNewLine m of
               None \<Rightarrow> ([], s)
             | Some m' \<Rightarrow> scan m' str (setPos (Suc (sc_pos s)) s))
          else (case commentAt str (sc_pos s) of
                  None \<Rightarrow> ([], s)
                | Some (k, e) \<Rightarrow>
                    (let (cs, s') = scan (onComment m) str (setFullStartAndPos e s)
                     in (createComment str s k e # cs, s'))))"
  by pat_completeness auto
termination
  apply (relation "measure (\<lambda>(m, str, s). length str - sc_pos s)")
     apply simp
    apply (auto simp: char_at_def setPos_def split: if_splits)[2]
  subgoal for m str s c x k e
    using commentAt_bounds[of str "sc_pos s" k e]
    by (auto simp: char_at_def setFullStartAndPos_def split: if_splits)
  done

declare scan.simps [simp del]

definition scanUntilNewLineOrToken ::
  "string \<Rightarrow> scanner_state \<Rightarrow> comment list \<times> scanner_state" where
  "scanUntilNewLineOrToken str s = scan UntilNewLineOrToken str s"

definition scanForNewLines :: "string \<Rightarrow> scanner_state \<Rightarrow> comment list \<times> scanner_state" where
  "scanForNewLines str s = scan (ForNewLines False False) str s"

definition scanUntilToken :: "string \<Rightarrow> scanner_state \<Rightarrow> comment list \<times> scanner_state" where
  "scanUntilToken str s = scan UntilToken str s"

text \<open>Where a scan stops: at the end of the text, on a line break that ends the
  mode, or on a character that is neither whitespace nor the start of a comment.\<close>

definition stopsAt :: "scan_mode \<Rightarrow> string \<Rightarrow> nat \<Rightarrow> bool" where
  "stopsAt m str p =
     (case char_at str p of
        None \<Rightarrow> True
      | Some c \<Rightarrow>
          \<not> isWhitespace c
          \<and> (if isNewLine c then onNewLine m = None else commentAt str p = None))"

text \<open>Rule induction over the runs of the scanner.\<close>

lemma scan_induct [consumes 1, case_names stop space newline comment]:
  assumes run: "scan m str s = (cs, s')"
    and stop: "\<And>m str s. stopsAt m str (sc_pos s) \<Longrightarrow> P m str s [] s"
    and space: "\<And>m str s c cs s'. char_at str (sc_pos s) = Some c \<Longrightarrow> isWhitespace c \<Longrightarrow>
        P m str (setPos (Suc (sc_pos s)) s) cs s' \<Longrightarrow> P m str s cs s'"
    and newline: "\<And>m m' str s c cs s'. char_at str (sc_pos s) = Some c \<Longrightarrow>
        \<not> isWhitespace c \<Longrightarrow> isNewLine c \<Longrightarrow> onNewLine m = Some m' \<Longrightarrow>
        P m' str (setPos (Suc (sc_pos s)) s) cs s' \<Longrightarrow> P m str s cs s'"
    and comment: "\<And>m str s c k e cs s'. char_at str (sc_pos s) = Some c \<Longrightarrow>
        \<not> isWhitespace c \<Longrightarrow> \<not> isNewLine c \<Longrightarrow> commentAt str (sc_pos s) = Some (k, e) \<Longrightarrow>
        P (onComment m) str (setFullStartAndPos e s) cs s' \<Longrightarrow>
        P m str s (createComment str s k e # cs) s'"
  shows "P m str s cs s'"
  using run
proof (induction m str s arbitrary: cs s' rule: scan.induct)
  case (1 m str s)
  note simps = scan.simps[of m str s]
  show ?case
  proof (cases "char_at str (sc_pos s)")
    case None
    with "1.prems" have eq: "cs = []" "s' = s" by (simp_all add: simps)
    from None have "stopsAt m str (sc_pos s)" by (simp add: stopsAt_def)
    from stop[OF this] show ?thesis unfolding eq .
  next
    case (Some c)
    show ?thesis
    proof (cases "isWhitespace c")
      case True
      with Some "1.prems" have "scan m str (setPos (Suc (sc_pos s)) s) = (cs, s')"
        by (simp add: simps)
      from space[OF Some True "1.IH"(1)[OF Some True this]] show ?thesis .
    next
      case ws: False
      show ?thesis
      proof (cases "isNewLine c")
        case True
        show ?thesis
        proof (cases "onNewLine m")
          case None
          with Some ws True "1.prems" have eq: "cs = []" "s' = s" by (simp_all add: simps)
          from None Some ws True have "stopsAt m str (sc_pos s)"
            by (simp add: stopsAt_def)
          from stop[OF this] show ?thesis unfolding eq .
        next
          case m': (Some m')
          with Some ws True "1.prems" have "scan m' str (setPos (Suc (sc_pos s)) s) = (cs, s')"
            by (simp add: simps)
          from newline[OF Some ws True m' "1.IH"(2)[OF Some ws True m' this]]
          show ?thesis .
        qed
      next
        case nl: False
        show ?thesis
        proof (cases "commentAt str (sc_pos s)")
          case None
          with Some ws nl "1.prems" have eq: "cs = []" "s' = s" by (simp_all add: simps)
          from None Some ws nl have "stopsAt m str (sc_pos s)"
            by (simp add: stopsAt_def)
          from stop[OF this] show ?thesis unfolding eq .
        next
          case ke: (Some ke)
          obtain k e where ke': "ke = (k, e)" by (cases ke)
          obtain cs1 s1 where r: "scan (onComment m) str (setFullStartAndPos e s) = (cs1, s1)"
            by (cases "scan (onComment m) str (setFullStartAndPos e s)")
          from "1.prems" Some ws nl ke ke' r
          have eq: "cs = createComment str s k e # cs1" "s' = s1" by (simp_all add: simps)
          from ke ke' have c: "commentAt str (sc_pos s) = Some (k, e)" by simp
          from comment[OF Some ws nl c "1.IH"(3)[OF Some ws nl ke ke'[symmetric] r]]
          show ?thesis unfolding eq .
        qed
      qed
    qed
  qed
qed

text \<open>
  Modelled from the spec: \<^verbatim>\<open>StringUtils.getLineStartFromPos\<close> of
  \<^verbatim>\<open>@ts-morph/common\<close> is not among the sources at hand. Section 4.4 of the
  specification calls its result the line start of a position: the offset after the
  last line break in front of the position, or 0.
\<close>

fun getLineStartFromPos :: "string \<Rightarrow> nat \<Rightarrow> nat" where
  "getLineStartFromPos str 0 = 0"
| "getLineStartFromPos str (Suc p) =
     (case char_at str p of
        None \<Rightarrow> getLineStartFromPos str p
      | Some c \<Rightarrow> if isNewLine c then Suc p else getLineStartFromPos str p)"

section \<open>Comment lists\<close>

text \<open>
  Modelled from the spec: the classes of \<^verbatim>\<open>./CompilerComments\<close> are not among the
  sources at hand. Section 3 of the specification gives a comment list its
  \<^verbatim>\<open>fullStart\<close>, \<^verbatim>\<open>pos\<close> and \<^verbatim>\<open>end\<close>, its comments in source order and a
  list kind fixed by the owning container; the constructor call in
  \<^verbatim>\<open>getCreationFunction\<close> also hands over the container as parent.
\<close>

datatype CommentListKind =
  Statement | ClassElement | TypeElement | ObjectLiteralElement | EnumMember

record comment_list =
  commentListKind :: CommentListKind
  cl_fullStart :: nat
  cl_pos :: nat
  cl_end :: nat
  cl_parent :: nat
  comments :: "comment list"

text \<open>An element of a computed sequence: a node of the parser, a comment list, or
  (in token sequences) a single comment.\<close>

datatype elem = RealNode nat | ListNode comment_list | CommentNode comment

section \<open>Enumerating the children of a container: \<^verbatim>\<open>getNodes\<close>\<close>

definition isStatementContainerNode :: "ts_node \<Rightarrow> bool" where
  "isStatementContainerNode node \<longleftrightarrow>
     kind node = SourceFile \<or> kind node = Block \<or> kind node = ModuleBlock
     \<or> kind node = CaseClause \<or> kind node = DefaultClause"

definition getContainerChildren :: "tree \<Rightarrow> nat \<Rightarrow> error + nat list" where
  "getContainerChildren t container =
     (let k = kind (t container) in
      if k = SourceFile \<or> k = Block \<or> k = ModuleBlock \<or> k = CaseClause \<or> k = DefaultClause
      then Inr (elements (t container))
      else if k = ClassDeclaration \<or> k = ClassExpression \<or> k = EnumDeclaration
              \<or> k = InterfaceDeclaration \<or> k = TypeLiteral \<or> k = ClassExpression
      then Inr (elements (t container))
      else if k = ObjectLiteralExpression then Inr (elements (t container))
      else Inl NotImplementedError)"

definition getCtor :: "tree \<Rightarrow> nat \<Rightarrow> error + CommentListKind" where
  "getCtor t container =
     (let k = kind (t container) in
      if isStatementContainerNode (t container) then Inr Statement
      else if k = ClassDeclaration \<or> k = ClassExpression then Inr ClassElement
      else if k = InterfaceDeclaration \<or> k = TypeLiteral then Inr TypeElement
      else if k = ObjectLiteralExpression then Inr ObjectLiteralElement
      else if k = EnumDeclaration then Inr EnumMember
      else Inl NotImplementedError)"

type_synonym creation_function = "nat \<Rightarrow> nat \<Rightarrow> nat \<Rightarrow> comment list \<Rightarrow> comment_list"

definition getCreationFunction :: "tree \<Rightarrow> nat \<Rightarrow> error + creation_function" where
  "getCreationFunction t container =
     (case getCtor t container of
        Inl e \<Rightarrow> Inl e
      | Inr ctor \<Rightarrow>
          Inr (\<lambda>fullStart pos end cs.
                 \<lparr>commentListKind = ctor, cl_fullStart = fullStart, cl_pos = pos,
                  cl_end = end, cl_parent = container, comments = cs\<rparr>))"

definition isJsDocComment :: "comment \<Rightarrow> bool" where
  "isJsDocComment c \<longleftrightarrow>
     c_kind c = JSDocComment \<or> (take 3 (c_text c) = ''/**'' \<and> c_text c \<noteq> ''/***/'')"

lemma scan_pos:
  "scan m str s = (cs, s') \<Longrightarrow>
   sc_pos s \<le> sc_pos s' \<and> (cs \<noteq> [] \<longrightarrow> sc_pos s < sc_pos s' \<and> sc_pos s < length str)"
proof (induction rule: scan_induct)
  case (comment m str s c k e cs s')
  from comment.hyps(1) have "sc_pos s < length str"
    by (simp add: char_at_def split: if_splits)
  moreover from commentAt_bounds[OF comment.hyps(4)] have "sc_pos s + 2 \<le> e" by simp
  moreover from comment.IH have "e \<le> sc_pos s'" by (simp add: setFullStartAndPos_def)
  ultimately show ?case by simp
qed (auto simp: setPos_def)

lemma scan_pos_le: "scan m str s = (cs, s') \<Longrightarrow> sc_pos s \<le> sc_pos s'"
  using scan_pos by blast

lemma scan_nonempty:
  "scan m str s = (cs, s') \<Longrightarrow> cs \<noteq> [] \<Longrightarrow> sc_pos s < sc_pos s' \<and> sc_pos s < length str"
  using scan_pos by blast

text \<open>The loop of \<^verbatim>\<open>skipTrailingLine\<close>: drain the line, and go on behind a comma.\<close>

function skipTrailingLine_loop :: "string \<Rightarrow> scanner_state \<Rightarrow> scanner_state" where
  "skipTrailingLine_loop str s =
     (let s' = snd (scanUntilNewLineOrToken str s) in
      if char_at str (getPos s') \<noteq> Some (CHR '','') then s'
      else skipTrailingLine_loop str (setPos (getPos s' + 1) s'))"
  by pat_completeness auto
termination
  apply (relation "measure (\<lambda>(str, s). length str - sc_pos s)")
   apply simp
  subgoal for str s s'
    using scan_pos_le[of UntilNewLineOrToken str s "fst (scanUntilNewLineOrToken str s)" s']
    by (auto simp: char_at_def getPos_def setPos_def scanUntilNewLineOrToken_def
        split: if_splits)
  done

declare skipTrailingLine_loop.simps [simp del]

definition skipTrailingLine :: "string \<Rightarrow> scanner_state \<Rightarrow> scanner_state" where
  "skipTrailingLine str s = (if getPos s = 0 then s else skipTrailingLine_loop str s)"

text \<open>\<^verbatim>\<open>getLeadingComments\<close>: one comment list per group, until a scan yields
  nothing or, with \<open>stopAtJsDoc\<close>, a group holds a documentation comment.\<close>

function getLeadingComments ::
  "creation_function \<Rightarrow> bool \<Rightarrow> string \<Rightarrow> scanner_state \<Rightarrow> comment_list list \<times> scanner_state"
  where
  "getLeadingComments createCommentList stopAtJsDoc str s =
     (let (cs, s') = scanForNewLines str s in
      if cs = [] then ([], s')
      else if stopAtJsDoc \<and> list_ex isJsDocComment cs then ([], s')
      else
        (let firstComment = hd cs; lastComment = last cs;
             (rest, s'') = getLeadingComments createCommentList stopAtJsDoc str s'
         in (createCommentList (c_fullStart firstComment) (c_pos firstComment)
               (c_end lastComment) cs # rest, s'')))"
  by pat_completeness auto
termination
  apply (relation "measure (\<lambda>(f, b, str, s). length str - sc_pos s)")
   apply simp
  subgoal for f b str s x cs s'
    using scan_nonempty[of "ForNewLines False False" str s cs s']
    by (auto simp: scanForNewLines_def)
  done

declare getLeadingComments.simps [simp del]

text \<open>The loop \<^verbatim>\<open>for (const leadingComment of leadingComments)\<close> of
  \<^verbatim>\<open>getCommentNodes\<close>, which yields the lists that end at or before \<open>maxEnd\<close>.\<close>

fun yieldUpTo :: "nat \<Rightarrow> comment_list list \<Rightarrow> comment_list list" where
  "yieldUpTo maxEnd [] = []"
| "yieldUpTo maxEnd (leadingComment # rest) =
     (if cl_end leadingComment \<le> maxEnd then leadingComment # yieldUpTo maxEnd rest
      else yieldUpTo maxEnd rest)"

definition getCommentNodes ::
  "creation_function \<Rightarrow> string \<Rightarrow> bool \<Rightarrow> scanner_state \<Rightarrow> comment_list list \<times> scanner_state"
  where
  "getCommentNodes createCommentList str stopAtJsDoc s =
     (let s1 = skipTrailingLine str s;
          (leadingComments, s2) = getLeadingComments createCommentList stopAtJsDoc str s1;
          p = getPos s2;
          maxEnd = (if length str = p \<or> char_at str p = Some (CHR ''}'') then p
                    else getLineStartFromPos str p)
      in (yieldUpTo maxEnd leadingComments, s2))"

text \<open>The loop \<^verbatim>\<open>for (const childNode of childNodes)\<close> of \<^verbatim>\<open>getNodes\<close>.\<close>

fun getNodes_loop ::
  "tree \<Rightarrow> creation_function \<Rightarrow> string \<Rightarrow> scanner_state \<Rightarrow> nat list \<Rightarrow> elem list \<times> scanner_state"
  where
  "getNodes_loop t createCommentList str s [] = ([], s)"
| "getNodes_loop t createCommentList str s (childNode # rest) =
     (let (ls, s1) = getCommentNodes createCommentList str True
                       (setFullStartAndPos (pos (t childNode)) s);
          (others, s2) = getNodes_loop t createCommentList str s1 rest
      in (map ListNode ls @ RealNode childNode # others, s2))"

text \<open>
  \<^verbatim>\<open>getNodes\<close>. The scanner is the one cached for the source file; every
  enumeration sets its parent and its position before the first scan, so what an
  earlier enumeration left in it is never read, and the model starts from
  \<open>getScannerForSourceFile\<close> each time.
\<close>

definition getNodes :: "tree \<Rightarrow> string \<Rightarrow> nat \<Rightarrow> nat \<Rightarrow> error + elem list" where
  "getNodes t str sourceFile container =
     (case getContainerChildren t container of
        Inl e \<Rightarrow> Inl e
      | Inr childNodes \<Rightarrow>
          (case getCreationFunction t container of
             Inl e \<Rightarrow> Inl e
           | Inr createCommentList \<Rightarrow>
               (let scanner = setParent container getScannerForSourceFile in
                if length childNodes = 0 then
                  (case getContainerBodyPos t sourceFile container of
                     Inl e \<Rightarrow> Inl e
                   | Inr bodyStartPos \<Rightarrow>
                       Inr (map ListNode
                              (fst (getCommentNodes createCommentList str False
                                      (setFullStartAndPos bodyStartPos scanner)))))
                else
                  (let (found, s1) = getNodes_loop t createCommentList str scanner childNodes;
                       lastChild = last childNodes;
                       (ls, s2) = getCommentNodes createCommentList str False
                                    (setFullStartAndPos (node_end (t lastChild)) s1)
                   in Inr (found @ map ListNode ls)))))"

section \<open>What the parser guarantees about the children of a container\<close>

text \<open>
  The compiler computes \<^verbatim>\<open>getStart\<close> of a node by skipping the trivia behind its
  \<^verbatim>\<open>pos\<close> (its function \<^verbatim>\<open>skipTrivia\<close>). \<open>skipTrivia\<close> is that function for
  the trivia of the scanner above: whitespace, line breaks and comments.
\<close>

function skipTrivia :: "string \<Rightarrow> nat \<Rightarrow> nat" where
  "skipTrivia str p =
     (case char_at str p of
        None \<Rightarrow> p
      | Some c \<Rightarrow>
          if isWhitespace c \<or> isNewLine c then skipTrivia str (Suc p)
          else (case commentAt str p of
                  None \<Rightarrow> p
                | Some (k, e) \<Rightarrow> skipTrivia str e))"
  by pat_completeness auto
termination
  apply (relation "measure (\<lambda>(str, p). length str - p)")
    apply simp
   apply (auto simp: char_at_def split: if_splits)[1]
  subgoal for str p c x k e
    using commentAt_bounds[of str p k e]
    by (auto simp: char_at_def split: if_splits)
  done

declare skipTrivia.simps [simp del]

text \<open>
  The children of a container as the parser builds them for a text: each child starts
  where the trivia behind its \<^verbatim>\<open>pos\<close> ends, occupies at least one character and
  does not begin with a comma, and each child ends at or before the \<^verbatim>\<open>pos\<close> of the
  next one.
\<close>

definition wellFormedChild :: "tree \<Rightarrow> string \<Rightarrow> nat \<Rightarrow> bool" where
  "wellFormedChild t str c \<longleftrightarrow>
     getStart (t c) = skipTrivia str (pos (t c))
     \<and> getStart (t c) < node_end (t c)
     \<and> char_at str (getStart (t c)) \<noteq> Some (CHR '','')"

definition wellFormedChildren :: "tree \<Rightarrow> string \<Rightarrow> nat list \<Rightarrow> bool" where
  "wellFormedChildren t str cs \<longleftrightarrow>
     list_all (wellFormedChild t str) cs
     \<and> sorted_wrt (\<lambda>a b. node_end (t a) \<le> pos (t b)) cs"

text \<open>The source span of an element: from the start of its significant content
  (\<^verbatim>\<open>getStart\<close> of a node, \<^verbatim>\<open>pos\<close> of a comment list or comment) to its end.\<close>

definition elem_start :: "tree \<Rightarrow> elem \<Rightarrow> nat" where
  "elem_start t x =
     (case x of
        RealNode n \<Rightarrow> getStart (t n)
      | ListNode l \<Rightarrow> cl_pos l
      | CommentNode c \<Rightarrow> c_pos c)"

definition elem_end :: "tree \<Rightarrow> elem \<Rightarrow> nat" where
  "elem_end t x =
     (case x of
        RealNode n \<Rightarrow> node_end (t n)
      | ListNode l \<Rightarrow> cl_end l
      | CommentNode c \<Rightarrow> c_end c)"




section \<open>The two caches\<close>

text \<open>
  \<^verbatim>\<open>childrenSaver\<close> and \<^verbatim>\<open>tokenSaver\<close> map a node to an array. Whether two calls
  return the same array is a question of references, so arrays live in a store and
  the caches hold references. An array that this module creates (\<^verbatim>\<open>Array.from\<close>,
  \<^verbatim>\<open>const result = []\<close>) gets the next free address, \<open>ArrayRef\<close>. Two arrays
  are not created here but handed through: the array of children that the compiler
  keeps for a node (\<open>ChildrenOf\<close>, what \<^verbatim>\<open>getChildren(sourceFile)\<close> returns) and
  the \<^verbatim>\<open>comments\<close> array of a comment list (\<open>CommentsOf\<close>).
  \<^verbatim>\<open>getOrParseTokens\<close> is called with a node of the parser or with a comment
  list.
\<close>

datatype array_ref = ArrayRef nat | ChildrenOf nat | CommentsOf comment_list

datatype node_ref = TsNode nat | CommentListRef comment_list

record parser_state =
  childrenSaver :: "nat \<rightharpoonup> array_ref"
  tokenSaver :: "node_ref \<rightharpoonup> array_ref"
  arrays :: "elem list list"

definition newArray :: "elem list \<Rightarrow> parser_state \<Rightarrow> array_ref \<times> parser_state" where
  "newArray xs st = (ArrayRef (length (arrays st)), st\<lparr>arrays := arrays st @ [xs]\<rparr>)"

text \<open>What a reference points to.\<close>

definition deref :: "tree \<Rightarrow> parser_state \<Rightarrow> array_ref \<Rightarrow> elem list" where
  "deref t st r =
     (case r of
        ArrayRef a \<Rightarrow> arrays st ! a
      | ChildrenOf n \<Rightarrow> map RealNode (getChildren (t n))
      | CommentsOf l \<Rightarrow> map CommentNode (comments l))"

text \<open>\<^verbatim>\<open>getOrParseChildren\<close>. A syntax list without a parent makes
  \<^verbatim>\<open>getNodes\<close> read the kind of \<^verbatim>\<open>undefined\<close>, a type error.\<close>

definition getOrParseChildren ::
  "tree \<Rightarrow> string \<Rightarrow> nat \<Rightarrow> parser_state \<Rightarrow> nat \<Rightarrow> error + (array_ref \<times> parser_state)" where
  "getOrParseChildren t str sourceFile st container0 =
     (case (if isSyntaxList (t container0) then parent (t container0) else Some container0) of
        None \<Rightarrow> Inl TypeError
      | Some container \<Rightarrow>
          (case childrenSaver st container of
             Some children \<Rightarrow> Inr (children, st)
           | None \<Rightarrow>
               (case getNodes t str sourceFile container of
                  Inl e \<Rightarrow> Inl e
                | Inr nodes \<Rightarrow>
                    (let (children, st1) = newArray nodes st
                     in Inr (children,
                             st1\<lparr>childrenSaver := (childrenSaver st1)(container \<mapsto> children)\<rparr>)))))"

definition hasParsedChildren :: "tree \<Rightarrow> parser_state \<Rightarrow> nat \<Rightarrow> bool" where
  "hasParsedChildren t st container0 =
     (case (if isSyntaxList (t container0) then parent (t container0) else Some container0) of
        None \<Rightarrow> False
      | Some container \<Rightarrow> childrenSaver st container \<noteq> None)"

section \<open>Enumerating tokens: \<^verbatim>\<open>getOrParseTokens\<close>\<close>

definition singleSyntaxListParents :: "SyntaxKind set" where
  "singleSyntaxListParents = {SourceFile, Block, ModuleBlock, CaseClause, DefaultClause}"

definition openBraceSyntaxListParents :: "SyntaxKind set" where
  "openBraceSyntaxListParents =
     {ClassDeclaration, InterfaceDeclaration, EnumDeclaration, ClassExpression, TypeLiteral,
      ObjectLiteralExpression}"

text \<open>The loop of \<^verbatim>\<open>isChildSyntaxList\<close> over the children of the parent.\<close>

fun isChildSyntaxList_loop :: "tree \<Rightarrow> nat \<Rightarrow> bool \<Rightarrow> nat list \<Rightarrow> bool" where
  "isChildSyntaxList_loop t node passedBrace [] = False"
| "isChildSyntaxList_loop t node passedBrace (child # rest) =
     (if passedBrace then child = node
      else isChildSyntaxList_loop t node (kind (t child) = OpenBraceToken) rest)"

definition isChildSyntaxList :: "tree \<Rightarrow> nat \<Rightarrow> error + bool" where
  "isChildSyntaxList t node =
     (case parent (t node) of
        None \<Rightarrow> Inl TypeError
      | Some p \<Rightarrow>
          if kind (t p) \<in> singleSyntaxListParents then Inr True
          else if kind (t p) \<notin> openBraceSyntaxListParents then Inr False
          else Inr (isChildSyntaxList_loop t node False (getChildren (t p))))"

text \<open>\<^verbatim>\<open>children.indexOf(syntaxList)\<close>, which is -1 when the node is absent.\<close>

fun indexOf :: "nat list \<Rightarrow> nat \<Rightarrow> int" where
  "indexOf [] x = -1"
| "indexOf (y # ys) x =
     (if y = x then 0 else (let i = indexOf ys x in if i < 0 then -1 else i + 1))"

text \<open>\<^verbatim>\<open>children[i]\<close>, which is \<^verbatim>\<open>undefined\<close> outside the array.\<close>

definition at_index :: "nat list \<Rightarrow> int \<Rightarrow> nat option" where
  "at_index xs i = (if 0 \<le> i \<and> i < int (length xs) then Some (xs ! nat i) else None)"

text \<open>\<^verbatim>\<open>getSearchEnd\<close>. Its result can be -1 (a close brace that ends at 0), so
  it is an integer.\<close>

definition getSearchEnd :: "tree \<Rightarrow> nat \<Rightarrow> nat \<Rightarrow> error + int" where
  "getSearchEnd t sourceFile syntaxList =
     (case parent (t syntaxList) of
        None \<Rightarrow> Inl TypeError
      | Some p \<Rightarrow>
          if kind (t p) = SourceFile then Inr (int (node_end (t p)))
          else
            (let children = getChildren (t p) in
             case at_index children (indexOf children syntaxList + 1) of
               None \<Rightarrow> Inr (int (node_end (t sourceFile)))
             | Some nextChild \<Rightarrow>
                 if kind (t nextChild) = CloseBraceToken
                 then Inr (int (node_end (t nextChild)) - 1)
                 else Inr (int (node_end (t sourceFile)))))"

text \<open>
  Modelled from the spec: \<^verbatim>\<open>getStart\<close> and \<^verbatim>\<open>end\<close> of the classes of
  \<^verbatim>\<open>./CompilerComments\<close>. A comment list and a comment start at their
  \<^verbatim>\<open>pos\<close> (section 3: the start of significant content). For a node of the parser,
  \<open>childStart\<close> is \<^verbatim>\<open>((child as any).jsDoc?.[0] || child).getStart(sourceFile)\<close>.
\<close>

definition childStart :: "tree \<Rightarrow> elem \<Rightarrow> nat" where
  "childStart t child =
     (case child of
        RealNode n \<Rightarrow> (case jsDoc (t n) of [] \<Rightarrow> getStart (t n) | j # _ \<Rightarrow> getStart (t j))
      | ListNode l \<Rightarrow> cl_pos l
      | CommentNode c \<Rightarrow> c_pos c)"

text \<open>
  A \<^verbatim>\<open>for\<close> loop over \<^verbatim>\<open>scanUntilToken()\<close> that leaves with \<^verbatim>\<open>break\<close> pushes
  the comments in front of the first one that meets the condition. The loop
  \<^verbatim>\<open>for (const child of children)\<close> of \<^verbatim>\<open>parseChildSyntaxList\<close> repositions the
  scanner after each child, which overwrites where the \<^verbatim>\<open>break\<close> left it.
\<close>

fun parseChildSyntaxList_loop ::
  "tree \<Rightarrow> string \<Rightarrow> scanner_state \<Rightarrow> elem list \<Rightarrow> elem list \<times> scanner_state" where
  "parseChildSyntaxList_loop t str s [] = ([], s)"
| "parseChildSyntaxList_loop t str s (child # rest) =
     (let (cs, s1) = scanUntilToken str s;
          pushed = takeWhile (\<lambda>c. c_pos c \<noteq> childStart t child) cs;
          (result, s2) = parseChildSyntaxList_loop t str
                           (setFullStartAndPos (elem_end t child) s1) rest
      in (map CommentNode pushed @ child # result, s2))"

text \<open>\<^verbatim>\<open>parseChildSyntaxList\<close>. \<^verbatim>\<open>getSearchEnd\<close> has read the kind of the parent
  before \<^verbatim>\<open>setParent\<close> is reached, so the parent exists there.\<close>

definition parseChildSyntaxList ::
  "tree \<Rightarrow> string \<Rightarrow> nat \<Rightarrow> parser_state \<Rightarrow> nat \<Rightarrow> error + (elem list \<times> parser_state)" where
  "parseChildSyntaxList t str sourceFile st syntaxList =
     (case getOrParseChildren t str sourceFile st syntaxList of
        Inl e \<Rightarrow> Inl e
      | Inr (children, st1) \<Rightarrow>
          (case getSearchEnd t sourceFile syntaxList of
             Inl e \<Rightarrow> Inl e
           | Inr searchEnd \<Rightarrow>
               (case parent (t syntaxList) of
                  None \<Rightarrow> Inl TypeError
                | Some p \<Rightarrow>
                    (let commentScanner =
                           setFullStartAndPos (pos (t syntaxList))
                             (setParent p getScannerForSourceFile);
                         (result, s1) = parseChildSyntaxList_loop t str commentScanner
                                          (deref t st1 children);
                         trailing = takeWhile (\<lambda>c. int (c_pos c) \<le> searchEnd)
                                      (fst (scanUntilToken str s1))
                     in Inr (result @ map CommentNode trailing, st1)))))"

text \<open>The loop \<^verbatim>\<open>for (let i = 1; i < children.length; i++)\<close> of \<^verbatim>\<open>parseNode\<close>,
  over the children from index \<open>i\<close> on.\<close>

fun parseNode_loop ::
  "tree \<Rightarrow> string \<Rightarrow> scanner_state \<Rightarrow> nat \<Rightarrow> nat list \<Rightarrow> error + elem list" where
  "parseNode_loop t str s lastEnd [] = Inr []"
| "parseNode_loop t str s lastEnd (child # rest) =
     (case (if isSyntaxList (t child) then isChildSyntaxList t child else Inr False) of
        Inl e \<Rightarrow> Inl e
      | Inr childIsSyntaxList \<Rightarrow>
          (let pushed =
                 (if kind (t child) \<noteq> EndOfFileToken then
                    (let stopPos = (if childIsSyntaxList then pos (t child)
                                    else getStart (t child))
                     in takeWhile (\<lambda>c. c_pos c \<le> stopPos)
                          (fst (scanUntilToken str (setFullStartAndPos lastEnd s))))
                  else []);
               lastEnd' =
                 (case rest of
                    [] \<Rightarrow> node_end (t child)
                  | nextChild # _ \<Rightarrow>
                      if childIsSyntaxList then getStart (t nextChild) else node_end (t child))
           in case parseNode_loop t str s lastEnd' rest of
                Inl e \<Rightarrow> Inl e
              | Inr result \<Rightarrow> Inr (map CommentNode pushed @ RealNode child # result)))"

definition parseNode ::
  "tree \<Rightarrow> string \<Rightarrow> parser_state \<Rightarrow> nat \<Rightarrow> error + (array_ref \<times> parser_state)" where
  "parseNode t str st node =
     (let children = getChildren (t node) in
      if length children \<le> 1 then Inr (ChildrenOf node, st)
      else
        (case parseNode_loop t str (setParent node getScannerForSourceFile)
                (node_end (t (hd children))) (tl children) of
           Inl e \<Rightarrow> Inl e
         | Inr result \<Rightarrow> Inr (newArray (RealNode (hd children) # result) st)))"

definition getTokens ::
  "tree \<Rightarrow> string \<Rightarrow> nat \<Rightarrow> parser_state \<Rightarrow> node_ref \<Rightarrow> error + (array_ref \<times> parser_state)"
  where
  "getTokens t str sourceFile st node =
     (case node of
        CommentListRef l \<Rightarrow> Inr (CommentsOf l, st)
      | TsNode n \<Rightarrow>
          (case (if isSyntaxList (t n) then isChildSyntaxList t n else Inr False) of
             Inl e \<Rightarrow> Inl e
           | Inr True \<Rightarrow>
               (case parseChildSyntaxList t str sourceFile st n of
                  Inl e \<Rightarrow> Inl e
                | Inr (result, st1) \<Rightarrow> Inr (newArray result st1))
           | Inr False \<Rightarrow> parseNode t str st n))"

definition getOrParseTokens ::
  "tree \<Rightarrow> string \<Rightarrow> nat \<Rightarrow> parser_state \<Rightarrow> node_ref \<Rightarrow> error + (array_ref \<times> parser_state)"
  where
  "getOrParseTokens t str sourceFile st node =
     (case tokenSaver st node of
        Some tokens \<Rightarrow> Inr (tokens, st)
      | None \<Rightarrow>
          (case getTokens t str sourceFile st node of
             Inl e \<Rightarrow> Inl e
           | Inr (tokens, st1) \<Rightarrow>
               Inr (tokens, st1\<lparr>tokenSaver := (tokenSaver st1)(node \<mapsto> tokens)\<rparr>)))"

definition hasParsedTokens :: "parser_state \<Rightarrow> node_ref \<Rightarrow> bool" where
  "hasParsedTokens st node \<longleftrightarrow> tokenSaver st node \<noteq> None"

section \<open>Auxiliary notions for the statements below\<close>

text \<open>A significant token starts at an offset: the character there is neither
  whitespace nor a line break and opens no comment.\<close>

definition isTokenAt :: "string \<Rightarrow> nat \<Rightarrow> bool" where
  "isTokenAt str q \<longleftrightarrow>
     (case char_at str q of
        None \<Rightarrow> False
      | Some c \<Rightarrow> \<not> isWhitespace c \<and> \<not> isNewLine c \<and> commentAt str q = None)"

text \<open>A comment list lies between two offsets, spans at least one character and
  holds comments that the scanner found inside it.\<close>

definition groupOk :: "string \<Rightarrow> nat \<Rightarrow> nat \<Rightarrow> comment_list \<Rightarrow> bool" where
  "groupOk str lo hi l \<longleftrightarrow>
     lo \<le> cl_pos l \<and> cl_pos l < cl_end l \<and> cl_end l \<le> hi
     \<and> (\<forall>c\<in>set (comments l). cl_pos l \<le> c_pos c \<and> c_end c \<le> cl_end l
           \<and> commentAt str (c_pos c) = Some (c_kind c, c_end c))"

definition spanOk :: "tree \<Rightarrow> nat \<Rightarrow> nat \<Rightarrow> elem \<Rightarrow> bool" where
  "spanOk t lo hi x \<longleftrightarrow> lo \<le> elem_start t x \<and> elem_start t x < elem_end t x \<and> elem_end t x \<le> hi"






section \<open>Example inputs\<close>

text \<open>A small tree for the examples: node 0 is the source file of
  \<^verbatim>\<open>x = {\<close>\<^verbatim>\<open>}\<close>, node 1 an object literal with an open brace (node 2), an empty
  syntax list (node 3) and a close brace (node 4); node 5 is an object literal of zero
  length and node 6 an enum declaration whose children hold no syntax list.\<close>

definition node0 :: ts_node where
  "node0 = \<lparr>kind = OtherKind 0, pos = 0, node_end = 0, getStart = 0, parent = None,
            getChildren = [], elements = [], jsDoc = []\<rparr>"

definition example_tree :: tree where
  "example_tree =
     (\<lambda>i. node0)
       (0 := node0\<lparr>kind := SourceFile, node_end := 6\<rparr>,
        1 := node0\<lparr>kind := ObjectLiteralExpression, pos := 3, getStart := 4, node_end := 6,
                  parent := Some 0, getChildren := [2, 3, 4]\<rparr>,
        2 := node0\<lparr>kind := OpenBraceToken, pos := 3, getStart := 4, node_end := 5,
                  parent := Some 1\<rparr>,
        3 := node0\<lparr>kind := SyntaxList, pos := 5, getStart := 5, node_end := 5,
                  parent := Some 1\<rparr>,
        4 := node0\<lparr>kind := CloseBraceToken, pos := 5, getStart := 5, node_end := 6,
                  parent := Some 1\<rparr>,
        5 := node0\<lparr>kind := ObjectLiteralExpression, pos := 2, getStart := 2, node_end := 2,
                  parent := Some 0\<rparr>,
        6 := node0\<lparr>kind := EnumDeclaration, pos := 0, getStart := 0, node_end := 6,
                  parent := Some 0, getChildren := [4]\<rparr>)"

definition lineFeed :: char where
  "lineFeed = CHR 0x0A"

text \<open>The creation function of a statement container, and shorthands for the comments
  and comment lists that the examples yield.\<close>

definition statementList :: "nat \<Rightarrow> creation_function" where
  "statementList container = (\<lambda>fullStart pos end cs.
     \<lparr>commentListKind = Statement, cl_fullStart = fullStart, cl_pos = pos,
      cl_end = end, cl_parent = container, comments = cs\<rparr>)"

definition lineComment :: "nat \<Rightarrow> nat \<Rightarrow> nat \<Rightarrow> string \<Rightarrow> comment" where
  "lineComment fullStart p e s =
     \<lparr>c_kind = SingleLineCommentTrivia, c_fullStart = fullStart, c_pos = p, c_end = e, c_text = s\<rparr>"

definition blockComment :: "nat \<Rightarrow> nat \<Rightarrow> nat \<Rightarrow> string \<Rightarrow> comment" where
  "blockComment fullStart p e s =
     \<lparr>c_kind = MultiLineCommentTrivia, c_fullStart = fullStart, c_pos = p, c_end = e, c_text = s\<rparr>"

definition listOf :: "CommentListKind \<Rightarrow> nat \<Rightarrow> comment list \<Rightarrow> comment_list" where
  "listOf k container cs =
     \<lparr>commentListKind = k, cl_fullStart = c_fullStart (hd cs), cl_pos = c_pos (hd cs),
      cl_end = c_end (last cs), cl_parent = container, comments = cs\<rparr>"

text \<open>The text \<^verbatim>\<open>// a\<close>, a blank line, \<^verbatim>\<open>// b\<close>, and on the next line two
  blanks and the statement \<^verbatim>\<open>x;\<close>. Node 0 is the source file, node 1 the
  statement.\<close>

definition groups_text :: string where
  "groups_text = ''// a'' @ [lineFeed, lineFeed] @ ''// b'' @ [lineFeed] @ ''  x;''"

definition groups_tree :: tree where
  "groups_tree = (\<lambda>i. node0)
     (0 := node0\<lparr>kind := SourceFile, node_end := 15, elements := [1]\<rparr>,
      1 := node0\<lparr>kind := OtherKind 1, pos := 0, getStart := 13, node_end := 15,
                parent := Some 0\<rparr>)"

definition groups_children :: "elem list" where
  "groups_children =
     [ListNode (listOf Statement 0 [lineComment 0 0 4 ''// a'']),
      ListNode (listOf Statement 0 [lineComment 4 6 10 ''// b'']),
      RealNode 1]"

text \<open>The text \<^verbatim>\<open>// a\<close>, a blank line, the documentation comment
  \<^verbatim>\<open>/** d */\<close>, and on the next line \<^verbatim>\<open>f();\<close>.\<close>

definition jsdoc_text :: string where
  "jsdoc_text = ''// a'' @ [lineFeed, lineFeed] @ ''/** d */'' @ [lineFeed] @ ''f();''"


text \<open>The text \<^verbatim>\<open>x;\<close>, on the next line \<^verbatim>\<open>// c\<close>, a blank line, and
  \<^verbatim>\<open>/* d */ y;\<close>.\<close>

definition ceiling_text :: string where
  "ceiling_text = ''x;'' @ [lineFeed] @ ''// c'' @ [lineFeed, lineFeed] @ ''/* d */ y;''"


text \<open>An enum declaration over three lines: \<^verbatim>\<open>enum E { A, // note\<close>, then
  \<^verbatim>\<open>// c\<close>, then \<^verbatim>\<open>B }\<close>. Node 1 is the declaration, nodes 2 and 3 its
  members, node 6 the syntax list between the braces (nodes 5 and 7).\<close>

definition enum_text :: string where
  "enum_text = ''enum E { A, // note'' @ [lineFeed] @ '' // c'' @ [lineFeed] @ '' B }''"

definition enum_tree :: tree where
  "enum_tree = (\<lambda>i. node0)
     (0 := node0\<lparr>kind := SourceFile, node_end := 30, elements := [1]\<rparr>,
      1 := node0\<lparr>kind := EnumDeclaration, pos := 0, getStart := 0, node_end := 30,
                parent := Some 0, elements := [2, 3], getChildren := [8, 9, 5, 6, 7]\<rparr>,
      2 := node0\<lparr>kind := OtherKind 2, pos := 8, getStart := 9, node_end := 10, parent := Some 1\<rparr>,
      3 := node0\<lparr>kind := OtherKind 2, pos := 11, getStart := 27, node_end := 28, parent := Some 1\<rparr>,
      4 := node0\<lparr>kind := OtherKind 3, pos := 10, getStart := 10, node_end := 11, parent := Some 6\<rparr>,
      5 := node0\<lparr>kind := OpenBraceToken, pos := 6, getStart := 7, node_end := 8, parent := Some 1\<rparr>,
      6 := node0\<lparr>kind := SyntaxList, pos := 8, getStart := 9, node_end := 28, parent := Some 1,
                getChildren := [2, 4, 3]\<rparr>,
      7 := node0\<lparr>kind := CloseBraceToken, pos := 28, getStart := 29, node_end := 30, parent := Some 1\<rparr>,
      8 := node0\<lparr>kind := OtherKind 4, pos := 0, getStart := 0, node_end := 4, parent := Some 1\<rparr>,
      9 := node0\<lparr>kind := OtherKind 5, pos := 4, getStart := 5, node_end := 6, parent := Some 1\<rparr>)"

definition enum_children :: "elem list" where
  "enum_children =
     [RealNode 2, ListNode (listOf EnumMember 1 [lineComment 19 21 25 ''// c'']), RealNode 3]"

definition emptyState :: parser_state where
  "emptyState = \<lparr>childrenSaver = Map.empty, tokenSaver = Map.empty, arrays = []\<rparr>"

definition enum_state :: parser_state where
  "enum_state = \<lparr>childrenSaver = [1 \<mapsto> ArrayRef 0], tokenSaver = Map.empty,
                  arrays = [enum_children]\<rparr>"

text \<open>The state after the tokens of the syntax list have been enumerated as well.\<close>

definition enum_token_state :: parser_state where
  "enum_token_state = \<lparr>childrenSaver = [1 \<mapsto> ArrayRef 0], tokenSaver = [TsNode 6 \<mapsto> ArrayRef 1],
                        arrays = [enum_children, enum_children]\<rparr>"

text \<open>The object literal of \<^verbatim>\<open>({ /* only */ })\<close>, and of the same text with a line
  break in place of the blank behind the open brace. Node 1 is the object literal, node 2
  its open brace, node 3 its empty syntax list, node 4 its close brace.\<close>

definition only_text :: string where "only_text = ''({ /* only */ })''"

definition only_text_own_line :: string where "only_text_own_line = ''({'' @ [lineFeed] @ ''/* only */ })''"

definition only_tree :: tree where
  "only_tree = (\<lambda>i. node0)
     (0 := node0\<lparr>kind := SourceFile, node_end := 16\<rparr>,
      1 := node0\<lparr>kind := ObjectLiteralExpression, pos := 1, getStart := 1, node_end := 15,
                parent := Some 0, getChildren := [2, 3, 4]\<rparr>,
      2 := node0\<lparr>kind := OpenBraceToken, pos := 1, getStart := 1, node_end := 2, parent := Some 1\<rparr>,
      3 := node0\<lparr>kind := SyntaxList, pos := 2, getStart := 2, node_end := 2, parent := Some 1\<rparr>,
      4 := node0\<lparr>kind := CloseBraceToken, pos := 2, getStart := 14, node_end := 15, parent := Some 1\<rparr>)"

text \<open>The text \<^verbatim>\<open>foo;\<close>, a line break, \<^verbatim>\<open>// c\<close>, with a block of zero length at
  offset 3 (node 1); the source notes that nodes of zero length may arise when jsx is
  parsed in a file that is not jsx.\<close>

definition zero_text :: string where
  "zero_text = ''foo;'' @ [lineFeed] @ ''// c''"

definition zero_tree :: tree where
  "zero_tree = (\<lambda>i. node0)
     (0 := node0\<lparr>kind := SourceFile, node_end := 9\<rparr>,
      1 := node0\<lparr>kind := Block, pos := 3, getStart := 3, node_end := 3, parent := Some 0\<rparr>)"

section \<open>Facts about the scanner\<close>

lemma skipTrivia_ge: "p \<le> skipTrivia str p"
proof (induction str p rule: skipTrivia.induct)
  case (1 str p)
  show ?case
  proof (cases "char_at str p")
    case None
    then show ?thesis by (simp add: skipTrivia.simps[of str p])
  next
    case (Some c)
    show ?thesis
    proof (cases "isWhitespace c \<or> isNewLine c")
      case True
      with Some "1.IH"(1)[OF Some True] show ?thesis
        by (simp add: skipTrivia.simps[of str p])
    next
      case False
      show ?thesis
      proof (cases "commentAt str p")
        case None
        with Some False show ?thesis by (simp add: skipTrivia.simps[of str p])
      next
        case ke: (Some ke)
        obtain k e where ke': "ke = (k, e)" by (cases ke)
        from "1.IH"(2)[OF Some False ke ke'[symmetric]] have "e \<le> skipTrivia str e" .
        moreover from commentAt_bounds ke ke' have "p + 2 \<le> e" by blast
        ultimately show ?thesis using Some False ke ke'
          by (simp add: skipTrivia.simps[of str p])
      qed
    qed
  qed
qed

lemma skipTrivia_stop:
  "stopsAt m str p \<Longrightarrow> char_at str p \<noteq> None \<Longrightarrow> \<not> isNewLine (the (char_at str p)) \<Longrightarrow>
   skipTrivia str p = p"
  by (auto simp: stopsAt_def skipTrivia.simps[of str p] split: option.splits if_splits)

lemma scan_skipTrivia:
  "scan m str s = (cs, s') \<Longrightarrow> skipTrivia str (sc_pos s') = skipTrivia str (sc_pos s)"
proof (induction rule: scan_induct)
  case (stop m str s)
  then show ?case by simp
next
  case (space m str s c cs s')
  then show ?case by (simp add: setPos_def skipTrivia.simps[of str "sc_pos s"])
next
  case (newline m m' str s c cs s')
  then show ?case by (simp add: setPos_def skipTrivia.simps[of str "sc_pos s"])
next
  case (comment m str s c k e cs s')
  then show ?case by (simp add: setFullStartAndPos_def skipTrivia.simps[of str "sc_pos s"])
qed

lemma scan_comments:
  "scan m str s = (cs, s') \<Longrightarrow>
   (\<forall>c\<in>set cs. sc_pos s \<le> c_pos c \<and> commentAt str (c_pos c) = Some (c_kind c, c_end c)
      \<and> c_pos c + 2 \<le> c_end c \<and> c_end c \<le> sc_pos s')
   \<and> sorted_wrt (\<lambda>a b. c_end a \<le> c_pos b) cs \<and> sc_pos s \<le> sc_pos s'"
proof (induction rule: scan_induct)
  case (stop m str s)
  then show ?case by simp
next
  case (space m str s c cs s')
  then show ?case by (auto simp: setPos_def)
next
  case (newline m m' str s c cs s')
  then show ?case by (auto simp: setPos_def)
next
  case (comment m str s c k e cs s')
  from commentAt_bounds[OF comment.hyps(4)] have b: "sc_pos s + 2 \<le> e" by simp
  with comment show ?case
    by (auto simp: setFullStartAndPos_def createComment_def)
qed

lemma scan_stops:
  "scan m str s = (cs, s') \<Longrightarrow> m = UntilNewLineOrToken \<or> m = UntilToken \<Longrightarrow>
   stopsAt m str (sc_pos s')"
proof (induction rule: scan_induct)
  case (newline m m' str s c cs s')
  then show ?case by auto
next
  case (comment m str s c k e cs s')
  then show ?case by auto
qed auto

lemma scan_parent: "scan m str s = (cs, s') \<Longrightarrow> sc_parent s' = sc_parent s"
  by (induction rule: scan_induct) (auto simp: setPos_def setFullStartAndPos_def)

lemma sorted_wrt_last:
  "sorted_wrt P xs \<Longrightarrow> c \<in> set xs \<Longrightarrow> c = last xs \<or> P c (last xs)"
  by (induction xs) auto

lemma sorted_wrt_hd:
  "sorted_wrt P xs \<Longrightarrow> c \<in> set xs \<Longrightarrow> c = hd xs \<or> P (hd xs) c"
  by (cases xs) auto

lemma group_bounds:
  assumes sc: "scan m str s = (cs, s')" and ne: "cs \<noteq> []"
  shows "sc_pos s \<le> c_pos (hd cs)" "c_pos (hd cs) < c_end (last cs)" "c_end (last cs) \<le> sc_pos s'"
    "\<forall>c\<in>set cs. c_pos (hd cs) \<le> c_pos c \<and> c_end c \<le> c_end (last cs)
        \<and> commentAt str (c_pos c) = Some (c_kind c, c_end c)"
proof -
  note f = scan_comments[OF sc]
  from f have all: "\<And>c. c \<in> set cs \<Longrightarrow> sc_pos s \<le> c_pos c
      \<and> commentAt str (c_pos c) = Some (c_kind c, c_end c)
      \<and> c_pos c + 2 \<le> c_end c \<and> c_end c \<le> sc_pos s'" by blast
  from f have srt: "sorted_wrt (\<lambda>a b. c_end a \<le> c_pos b) cs" by blast
  from ne have hd: "hd cs \<in> set cs" and lst: "last cs \<in> set cs" by simp_all
  show "sc_pos s \<le> c_pos (hd cs)" using all[OF hd] by simp
  show "c_end (last cs) \<le> sc_pos s'" using all[OF lst] by simp
  have le_last: "c_end c \<le> c_end (last cs)" if "c \<in> set cs" for c
    using sorted_wrt_last[OF srt that] all[OF lst] by auto
  have ge_hd: "c_pos (hd cs) \<le> c_pos c" if "c \<in> set cs" for c
    using sorted_wrt_hd[OF srt that] all[OF hd] by auto
  show "c_pos (hd cs) < c_end (last cs)"
    using le_last[OF hd] all[OF hd] by simp
  show "\<forall>c\<in>set cs. c_pos (hd cs) \<le> c_pos c \<and> c_end c \<le> c_end (last cs)
        \<and> commentAt str (c_pos c) = Some (c_kind c, c_end c)"
    using le_last ge_hd all by blast
qed

lemma scanLine_facts:
  assumes "s' = snd (scanUntilNewLineOrToken str s)"
  shows "sc_pos s \<le> sc_pos s'" "stopsAt UntilNewLineOrToken str (sc_pos s')"
    "skipTrivia str (sc_pos s') = skipTrivia str (sc_pos s)" "sc_parent s' = sc_parent s"
proof -
  obtain cs where sc: "scan UntilNewLineOrToken str s = (cs, s')"
    using assms by (cases "scan UntilNewLineOrToken str s") (simp add: scanUntilNewLineOrToken_def)
  show "sc_pos s \<le> sc_pos s'" by (rule scan_pos_le[OF sc])
  show "stopsAt UntilNewLineOrToken str (sc_pos s')" using scan_stops[OF sc] by simp
  show "skipTrivia str (sc_pos s') = skipTrivia str (sc_pos s)" by (rule scan_skipTrivia[OF sc])
  show "sc_parent s' = sc_parent s" by (rule scan_parent[OF sc])
qed

lemma scanLine_drained:
  "scan m str s = (cs, s') \<Longrightarrow> m = UntilNewLineOrToken \<Longrightarrow>
   (\<forall>q. sc_pos s \<le> q \<and> q < sc_pos s' \<longrightarrow>
      (\<exists>c. char_at str q = Some c \<and> isWhitespace c) \<or> (\<exists>c\<in>set cs. c_pos c \<le> q \<and> q < c_end c))"
proof (induction rule: scan_induct)
  case (stop m str s)
  then show ?case by auto
next
  case (space m str s c cs s')
  then show ?case
    by (auto simp: setPos_def) (metis Suc_leI le_neq_implies_less)
next
  case (newline m m' str s c cs s')
  then show ?case by simp
next
  case (comment m str s c k e cs s')
  then show ?case
    by (auto simp: setFullStartAndPos_def createComment_def) (meson not_less)
qed

section \<open>Facts about one pass of \<^verbatim>\<open>getCommentNodes\<close>\<close>

lemma getCreationFunction_fields:
  assumes "getCreationFunction t container = Inr mk"
  shows "cl_pos (mk fs p e cs) = p" "cl_end (mk fs p e cs) = e" "comments (mk fs p e cs) = cs"
    "cl_fullStart (mk fs p e cs) = fs" "cl_parent (mk fs p e cs) = container"
  using assms by (auto simp: getCreationFunction_def split: sum.splits)

lemma creation_fields:
  assumes "getCreationFunction t container = Inr mk"
  shows "\<And>fs p e cs. cl_pos (mk fs p e cs) = p \<and> cl_end (mk fs p e cs) = e
                 \<and> comments (mk fs p e cs) = cs"
  using getCreationFunction_fields[OF assms] by simp

lemma yieldUpTo_filter: "yieldUpTo maxEnd ls = filter (\<lambda>l. cl_end l \<le> maxEnd) ls"
  by (induction ls) auto

lemma getLineStartFromPos_le: "getLineStartFromPos str p \<le> p"
  by (induction p) (auto split: option.splits)

lemma getLineStartFromPos_spec:
  "(getLineStartFromPos str p = 0 \<or> char_at str (getLineStartFromPos str p - 1) = Some (CHR 0x0A))
   \<and> (\<forall>q. getLineStartFromPos str p \<le> q \<and> q < p \<longrightarrow> char_at str q \<noteq> Some (CHR 0x0A))"
proof (induction p)
  case 0
  then show ?case by simp
next
  case (Suc p)
  show ?case
  proof (cases "char_at str p = Some (CHR 0x0A)")
    case True
    then show ?thesis by (auto simp: isNewLine_def)
  next
    case False
    then have eq: "getLineStartFromPos str (Suc p) = getLineStartFromPos str p"
      by (auto simp: isNewLine_def split: option.splits)
    show ?thesis unfolding eq using Suc False
      by (auto simp: less_Suc_eq)
  qed
qed

lemma getLeadingComments_unfold:
  assumes "scanForNewLines str s = (cs, s')"
  shows "getLeadingComments mk stop str s =
    (if cs = [] then ([], s')
     else if stop \<and> list_ex isJsDocComment cs then ([], s')
     else (mk (c_fullStart (hd cs)) (c_pos (hd cs)) (c_end (last cs)) cs
             # fst (getLeadingComments mk stop str s'),
           snd (getLeadingComments mk stop str s')))"
  using assms
  by (simp add: getLeadingComments.simps[of mk stop str s] Let_def split: prod.splits)

lemma scanForNewLines_decreases:
  assumes "scanForNewLines str s = (cs, s')" "cs \<noteq> []"
  shows "length str - sc_pos s' < length str - sc_pos s"
  using scan_nonempty[of "ForNewLines False False" str s cs s'] assms
  by (auto simp: scanForNewLines_def)

lemma getLeadingComments_stop:
  assumes mk: "\<And>fs p e cs. comments (mk fs p e cs) = cs"
  shows "fst (getLeadingComments mk True str s) =
    takeWhile (\<lambda>l. \<not> list_ex isJsDocComment (comments l))
      (fst (getLeadingComments mk False str s))"
proof (induction "length str - sc_pos s" arbitrary: s rule: less_induct)
  case less
  obtain cs s' where sc: "scanForNewLines str s = (cs, s')"
    by (cases "scanForNewLines str s")
  show ?case
  proof (cases "cs = []")
    case True
    then show ?thesis by (simp add: getLeadingComments_unfold[OF sc])
  next
    case False
    from less[OF scanForNewLines_decreases[OF sc False]] False mk
    show ?thesis by (simp add: getLeadingComments_unfold[OF sc])
  qed
qed

lemma groupOk_mono: "groupOk str lo hi l \<Longrightarrow> lo' \<le> lo \<Longrightarrow> hi \<le> hi' \<Longrightarrow> groupOk str lo' hi' l"
  by (auto simp: groupOk_def)

lemma getLeadingComments_spans:
  assumes mk: "\<And>fs p e cs. cl_pos (mk fs p e cs) = p \<and> cl_end (mk fs p e cs) = e
                 \<and> comments (mk fs p e cs) = cs"
  shows "sc_pos s \<le> sc_pos (snd (getLeadingComments mk stop str s))
    \<and> skipTrivia str (sc_pos (snd (getLeadingComments mk stop str s))) = skipTrivia str (sc_pos s)
    \<and> sorted_wrt (\<lambda>a b. cl_end a \<le> cl_pos b) (fst (getLeadingComments mk stop str s))
    \<and> list_all (groupOk str (sc_pos s) (sc_pos (snd (getLeadingComments mk stop str s))))
         (fst (getLeadingComments mk stop str s))"
proof (induction "length str - sc_pos s" arbitrary: s rule: less_induct)
  case less
  obtain cs s' where sc: "scanForNewLines str s = (cs, s')"
    by (cases "scanForNewLines str s")
  then have sc': "scan (ForNewLines False False) str s = (cs, s')"
    by (simp add: scanForNewLines_def)
  note le = scan_pos_le[OF sc'] and tr = scan_skipTrivia[OF sc']
  show ?case
  proof (cases "cs = [] \<or> (stop \<and> list_ex isJsDocComment cs)")
    case True
    then show ?thesis using le tr by (auto simp: getLeadingComments_unfold[OF sc])
  next
    case False
    then have ne: "cs \<noteq> []" by simp
    let ?r = "getLeadingComments mk stop str s'"
    note IH = less[OF scanForNewLines_decreases[OF sc ne]]
    note gb = group_bounds[OF sc' ne]
    have eq: "getLeadingComments mk stop str s =
        (mk (c_fullStart (hd cs)) (c_pos (hd cs)) (c_end (last cs)) cs # fst ?r, snd ?r)"
      using False by (simp add: getLeadingComments_unfold[OF sc])
    let ?l = "mk (c_fullStart (hd cs)) (c_pos (hd cs)) (c_end (last cs)) cs"
    have l: "groupOk str (sc_pos s) (sc_pos s') ?l"
      using gb mk by (simp add: groupOk_def)
    from IH have rest: "list_all (groupOk str (sc_pos s') (sc_pos (snd ?r))) (fst ?r)" by simp
    have "list_all (groupOk str (sc_pos s) (sc_pos (snd ?r))) (fst ?r)"
      using rest le by (auto simp: list_all_iff intro: groupOk_mono)
    moreover have "groupOk str (sc_pos s) (sc_pos (snd ?r)) ?l"
      using l IH by (auto intro: groupOk_mono)
    moreover have "\<forall>y\<in>set (fst ?r). cl_end ?l \<le> cl_pos y"
      using rest l by (auto simp: list_all_iff groupOk_def)
    ultimately show ?thesis using IH le tr unfolding eq by simp
  qed
qed

lemma skipTrailingLine_loop_props:
  "sc_pos s \<le> sc_pos (skipTrailingLine_loop str s)
   \<and> stopsAt UntilNewLineOrToken str (sc_pos (skipTrailingLine_loop str s))
   \<and> char_at str (sc_pos (skipTrailingLine_loop str s)) \<noteq> Some (CHR '','')"
proof (induction str s rule: skipTrailingLine_loop.induct)
  case (1 str s)
  define s' where "s' = snd (scanUntilNewLineOrToken str s)"
  note f = scanLine_facts[OF s'_def]
  show ?case
  proof (cases "char_at str (getPos s') \<noteq> Some (CHR '','')")
    case True
    then have "skipTrailingLine_loop str s = s'"
      by (simp add: skipTrailingLine_loop.simps[of str s] s'_def Let_def)
    with True f show ?thesis by (simp add: getPos_def)
  next
    case False
    then have eq: "skipTrailingLine_loop str s = skipTrailingLine_loop str (setPos (getPos s' + 1) s')"
      by (simp add: skipTrailingLine_loop.simps[of str s] s'_def Let_def)
    from "1.IH"[OF s'_def False] f(1) show ?thesis unfolding eq
      by (simp add: setPos_def getPos_def)
  qed
qed

lemma skipTrailingLine_loop_noComma:
  assumes "char_at str (skipTrivia str (sc_pos s)) \<noteq> Some (CHR '','')"
  shows "skipTrailingLine_loop str s = snd (scanUntilNewLineOrToken str s)"
proof -
  define s' where "s' = snd (scanUntilNewLineOrToken str s)"
  note f = scanLine_facts[OF s'_def]
  have "char_at str (getPos s') \<noteq> Some (CHR '','')"
  proof
    assume c: "char_at str (getPos s') = Some (CHR '','')"
    then have "skipTrivia str (sc_pos s') = sc_pos s'"
      using skipTrivia_stop[OF f(2)] by (simp add: getPos_def isNewLine_def)
    with f(3) c assms show False by (simp add: getPos_def)
  qed
  then show ?thesis
    by (simp add: skipTrailingLine_loop.simps[of str s] s'_def Let_def)
qed

lemma skipTrailingLine_le: "sc_pos s \<le> sc_pos (skipTrailingLine str s)"
  using skipTrailingLine_loop_props[of s str] by (simp add: skipTrailingLine_def)

lemma skipTrailingLine_skipTrivia:
  assumes "char_at str (skipTrivia str (sc_pos s)) \<noteq> Some (CHR '','')"
  shows "skipTrivia str (sc_pos (skipTrailingLine str s)) = skipTrivia str (sc_pos s)"
  using skipTrailingLine_loop_noComma[OF assms] scanLine_facts(3)[OF refl, of str s]
  by (simp add: skipTrailingLine_def)

lemma getCommentNodes_eq:
  "getCommentNodes mk str stop s =
     (let r = getLeadingComments mk stop str (skipTrailingLine str s); p = sc_pos (snd r)
      in (filter (\<lambda>l. cl_end l \<le> (if length str = p \<or> char_at str p = Some (CHR ''}'') then p
                                    else getLineStartFromPos str p)) (fst r), snd r))"
  by (simp add: getCommentNodes_def yieldUpTo_filter Let_def getPos_def split: prod.splits)

lemma getCommentNodes_spans:
  assumes mk: "\<And>fs p e cs. cl_pos (mk fs p e cs) = p \<and> cl_end (mk fs p e cs) = e
                 \<and> comments (mk fs p e cs) = cs"
  shows "sorted_wrt (\<lambda>a b. cl_end a \<le> cl_pos b) (fst (getCommentNodes mk str stop s))"
    and "list_all (groupOk str (sc_pos (skipTrailingLine str s))
                     (sc_pos (snd (getCommentNodes mk str stop s))))
           (fst (getCommentNodes mk str stop s))"
    and "sc_pos s \<le> sc_pos (snd (getCommentNodes mk str stop s))"
    and "char_at str (skipTrivia str (sc_pos s)) \<noteq> Some (CHR '','') \<Longrightarrow>
         skipTrivia str (sc_pos (snd (getCommentNodes mk str stop s))) = skipTrivia str (sc_pos s)"
proof -
  note g = getLeadingComments_spans[where mk = mk and s = "skipTrailingLine str s" and stop = stop and str = str, OF mk]
  show "sorted_wrt (\<lambda>a b. cl_end a \<le> cl_pos b) (fst (getCommentNodes mk str stop s))"
    using g by (simp add: getCommentNodes_eq Let_def sorted_wrt_filter)
  show "list_all (groupOk str (sc_pos (skipTrailingLine str s))
                     (sc_pos (snd (getCommentNodes mk str stop s))))
           (fst (getCommentNodes mk str stop s))"
    using g by (simp add: getCommentNodes_eq Let_def list_all_iff)
  show "sc_pos s \<le> sc_pos (snd (getCommentNodes mk str stop s))"
    using g skipTrailingLine_le[of s str] by (simp add: getCommentNodes_eq Let_def)
  show "skipTrivia str (sc_pos (snd (getCommentNodes mk str stop s))) = skipTrivia str (sc_pos s)"
    if "char_at str (skipTrivia str (sc_pos s)) \<noteq> Some (CHR '','')"
    using g skipTrailingLine_skipTrivia[OF that] by (simp add: getCommentNodes_eq Let_def)
qed

section \<open>Facts about the computed child sequence\<close>

lemma spanOk_mono: "spanOk t lo hi x \<Longrightarrow> lo' \<le> lo \<Longrightarrow> hi \<le> hi' \<Longrightarrow> spanOk t lo' hi' x"
  by (auto simp: spanOk_def)

lemma spanOk_ListNode: "groupOk str lo hi l \<Longrightarrow> spanOk t lo hi (ListNode l)"
  by (simp add: groupOk_def spanOk_def elem_start_def elem_end_def)

lemma wellFormedChild_pos: "wellFormedChild t str c \<Longrightarrow> pos (t c) \<le> getStart (t c)"
  by (simp add: wellFormedChild_def skipTrivia_ge)

lemma wellFormedChildren_last:
  assumes "wellFormedChildren t str cs" "c \<in> set cs"
  shows "node_end (t c) \<le> node_end (t (last cs))"
proof -
  from assms(2) have "last cs \<in> set cs" by (cases cs) auto
  with assms have srt: "sorted_wrt (\<lambda>a b. node_end (t a) \<le> pos (t b)) cs"
    and wf: "wellFormedChild t str (last cs)"
    by (auto simp: wellFormedChildren_def list_all_iff)
  from sorted_wrt_last[OF srt assms(2)] wellFormedChild_pos[OF wf] wf show ?thesis
    by (auto simp: wellFormedChild_def)
qed

lemma leading_pass:
  assumes mk: "\<And>fs p e cs. cl_pos (mk fs p e cs) = p \<and> cl_end (mk fs p e cs) = e
                 \<and> comments (mk fs p e cs) = cs"
    and wf: "wellFormedChild t str c" and p: "sc_pos s = pos (t c)"
  shows "list_all (groupOk str (pos (t c)) (getStart (t c))) (fst (getCommentNodes mk str stop s))"
proof -
  from wf p have nc: "char_at str (skipTrivia str (sc_pos s)) \<noteq> Some (CHR '','')"
    and st: "getStart (t c) = skipTrivia str (sc_pos s)"
    unfolding wellFormedChild_def by metis+
  let ?s2 = "snd (getCommentNodes mk str stop s)"
  from getCommentNodes_spans(4)[where mk = mk, OF mk nc]
  have "skipTrivia str (sc_pos ?s2) = getStart (t c)" using st by simp
  with skipTrivia_ge[of "sc_pos ?s2" str] have hi: "sc_pos ?s2 \<le> getStart (t c)" by simp
  from getCommentNodes_spans(2)[where mk = mk, OF mk]
  have "list_all (groupOk str (sc_pos (skipTrailingLine str s)) (sc_pos ?s2))
          (fst (getCommentNodes mk str stop s))" .
  then show ?thesis using hi skipTrailingLine_le[of s str] p
    by (auto simp: list_all_iff intro: groupOk_mono)
qed

lemma getNodes_loop_sorted:
  assumes mk: "\<And>fs p e cs. cl_pos (mk fs p e cs) = p \<and> cl_end (mk fs p e cs) = e
                 \<and> comments (mk fs p e cs) = cs"
  shows "wellFormedChildren t str cs \<Longrightarrow> cs \<noteq> [] \<Longrightarrow>
     sorted_wrt (\<lambda>a b. elem_end t a \<le> elem_start t b) (fst (getNodes_loop t mk str s cs))
     \<and> list_all (spanOk t (pos (t (hd cs))) (node_end (t (last cs))))
          (fst (getNodes_loop t mk str s cs))"
proof (induction cs arbitrary: s)
  case Nil
  then show ?case by simp
next
  case (Cons c rest)
  let ?s0 = "setFullStartAndPos (pos (t c)) s"
  obtain ls s1 where g: "getCommentNodes mk str True ?s0 = (ls, s1)"
    by (cases "getCommentNodes mk str True ?s0")
  obtain others s2 where r: "getNodes_loop t mk str s1 rest = (others, s2)"
    by (cases "getNodes_loop t mk str s1 rest")
  have eq: "fst (getNodes_loop t mk str s (c # rest)) = map ListNode ls @ RealNode c # others"
    by (simp add: g r)
  from Cons.prems have wfc: "wellFormedChild t str c"
    and wfr: "wellFormedChildren t str rest"
    and nxt: "\<forall>d\<in>set rest. node_end (t c) \<le> pos (t d)"
    by (auto simp: wellFormedChildren_def)
  from leading_pass[where mk = mk, OF mk wfc, of ?s0 True] g
  have lsOk: "list_all (groupOk str (pos (t c)) (getStart (t c))) ls"
    by (simp add: setFullStartAndPos_def)
  from getCommentNodes_spans(1)[where mk = mk, OF mk, of str True ?s0] g
  have lsSorted: "sorted_wrt (\<lambda>a b. cl_end a \<le> cl_pos b) ls" by simp
  have cOk: "spanOk t (getStart (t c)) (node_end (t c)) (RealNode c)"
    using wfc by (simp add: spanOk_def elem_start_def elem_end_def wellFormedChild_def)
  note pc = wellFormedChild_pos[OF wfc]
  have last_ge: "node_end (t c) \<le> node_end (t (last (c # rest)))"
    using wellFormedChildren_last[OF Cons.prems(1), of c] by simp
  have sortedLs: "sorted_wrt (\<lambda>a b. elem_end t a \<le> elem_start t b) (map ListNode ls)"
    using lsSorted by (simp add: sorted_wrt_map elem_start_def elem_end_def)
  have lsBelow: "\<forall>x\<in>set (map ListNode ls). elem_end t x \<le> getStart (t c)"
    using lsOk by (auto simp: list_all_iff groupOk_def elem_end_def)
  have lsSpan: "list_all (spanOk t (pos (t c)) (node_end (t (last (c # rest))))) (map ListNode ls)"
    using lsOk last_ge wfc
    by (auto simp: list_all_iff wellFormedChild_def intro!: spanOk_mono[OF spanOk_ListNode])
  have cSpan: "spanOk t (pos (t c)) (node_end (t (last (c # rest)))) (RealNode c)"
    using cOk pc last_ge by (auto intro: spanOk_mono)
  show ?case
  proof (cases "rest = []")
    case True
    then have "others = []" using r by simp
    with sortedLs lsBelow lsSpan cSpan show ?thesis unfolding eq
      by (simp add: sorted_wrt_append elem_start_def)
  next
    case False
    from Cons.IH[OF wfr False, of s1] r
    have oSorted: "sorted_wrt (\<lambda>a b. elem_end t a \<le> elem_start t b) others"
      and oSpan: "list_all (spanOk t (pos (t (hd rest))) (node_end (t (last rest)))) others"
      by simp_all
    from nxt False have hd_ge: "node_end (t c) \<le> pos (t (hd rest))" by (cases rest) auto
    have oAbove: "\<forall>y\<in>set others. node_end (t c) \<le> elem_start t y"
      using oSpan hd_ge by (auto simp: list_all_iff spanOk_def)
    have oSpan': "list_all (spanOk t (pos (t c)) (node_end (t (last (c # rest))))) others"
      using oSpan hd_ge pc wfc False
      by (auto simp: list_all_iff wellFormedChild_def intro: spanOk_mono)
    from wfc have se: "getStart (t c) \<le> node_end (t c)" by (simp add: wellFormedChild_def)
    have A: "\<forall>x\<in>set (map ListNode ls). \<forall>y\<in>set (RealNode c # others).
               elem_end t x \<le> elem_start t y"
    proof (intro ballI)
      fix x y assume x: "x \<in> set (map ListNode ls)" and y: "y \<in> set (RealNode c # others)"
      from lsBelow x have 1: "elem_end t x \<le> getStart (t c)" by blast
      from y oAbove se have "getStart (t c) \<le> elem_start t y"
        by (auto simp: elem_start_def)
      with 1 show "elem_end t x \<le> elem_start t y" by simp
    qed
    have B: "sorted_wrt (\<lambda>a b. elem_end t a \<le> elem_start t b) (RealNode c # others)"
      using oSorted oAbove by (simp add: elem_end_def)
    have "sorted_wrt (\<lambda>a b. elem_end t a \<le> elem_start t b)
            (map ListNode ls @ RealNode c # others)"
      unfolding sorted_wrt_append using sortedLs A B by blast
    moreover have "list_all (spanOk t (pos (t c)) (node_end (t (last (c # rest)))))
            (map ListNode ls @ RealNode c # others)"
      using lsSpan cSpan oSpan' by simp
    ultimately show ?thesis unfolding eq by simp
  qed
qed

lemma getContainerChildren_Inr:
  "getContainerChildren t c = Inr cs \<Longrightarrow> cs = elements (t c)"
  by (auto simp: getContainerChildren_def Let_def split: if_splits)

lemma getNodes_spans:
  assumes run: "getNodes t str sourceFile container = Inr es"
    and wf: "wellFormedChildren t str (elements (t container))"
  shows "sorted_wrt (\<lambda>a b. elem_end t a \<le> elem_start t b) es
       \<and> list_all (\<lambda>x. elem_start t x < elem_end t x) es"
proof -
  from run obtain cs where cs: "getContainerChildren t container = Inr cs"
    by (auto simp: getNodes_def split: sum.splits)
  from run cs obtain mk where mk: "getCreationFunction t container = Inr mk"
    by (auto simp: getNodes_def split: sum.splits)
  note f = creation_fields[OF mk]
  from getContainerChildren_Inr[OF cs] wf have wf': "wellFormedChildren t str cs" by simp
  let ?sc = "setParent container getScannerForSourceFile"
  show ?thesis
  proof (cases "cs = []")
    case True
    with run cs mk obtain b where es: "es = map ListNode
        (fst (getCommentNodes mk str False (setFullStartAndPos b ?sc)))"
      by (auto simp: getNodes_def split: sum.splits)
    let ?s = "setFullStartAndPos b ?sc"
    note g = getCommentNodes_spans(1,2)[where mk = mk and str = str and stop = False and s = ?s, OF f]
    from g(1) have "sorted_wrt (\<lambda>a b. elem_end t a \<le> elem_start t b) es"
      unfolding es by (simp add: sorted_wrt_map elem_start_def elem_end_def)
    moreover from g(2) have "list_all (\<lambda>x. elem_start t x < elem_end t x) es"
      unfolding es by (auto simp: list_all_iff groupOk_def elem_start_def elem_end_def)
    ultimately show ?thesis by simp
  next
    case False
    obtain found s1 where l: "getNodes_loop t mk str ?sc cs = (found, s1)"
      by (cases "getNodes_loop t mk str ?sc cs")
    let ?s = "setFullStartAndPos (node_end (t (last cs))) s1"
    obtain ls s2 where g: "getCommentNodes mk str False ?s = (ls, s2)"
      by (cases "getCommentNodes mk str False ?s")
    from run cs mk False l g have es: "es = found @ map ListNode ls"
      by (simp add: getNodes_def)
    from getNodes_loop_sorted[where mk = mk, OF f wf' False, of ?sc] l
    have fs: "sorted_wrt (\<lambda>a b. elem_end t a \<le> elem_start t b) found"
      and fo: "list_all (spanOk t (pos (t (hd cs))) (node_end (t (last cs)))) found"
      by simp_all
    note gs = getCommentNodes_spans(1,2)[where mk = mk and str = str and stop = False and s = ?s, OF f]
    from gs(1) g have ls: "sorted_wrt (\<lambda>a b. elem_end t a \<le> elem_start t b) (map ListNode ls)"
      by (simp add: sorted_wrt_map elem_start_def elem_end_def)
    from gs(2) g skipTrailingLine_le[of ?s str]
    have lo: "\<forall>l\<in>set ls. node_end (t (last cs)) \<le> cl_pos l \<and> cl_pos l < cl_end l"
      by (auto simp: list_all_iff groupOk_def setFullStartAndPos_def)
    have cross: "\<forall>x\<in>set found. \<forall>y\<in>set (map ListNode ls). elem_end t x \<le> elem_start t y"
    proof (intro ballI)
      fix x y assume x: "x \<in> set found" and y: "y \<in> set (map ListNode ls)"
      from fo x have "elem_end t x \<le> node_end (t (last cs))"
        by (auto simp: list_all_iff spanOk_def)
      moreover from lo y have "node_end (t (last cs)) \<le> elem_start t y"
        by (auto simp: elem_start_def)
      ultimately show "elem_end t x \<le> elem_start t y" by simp
    qed
    have "sorted_wrt (\<lambda>a b. elem_end t a \<le> elem_start t b) es"
      unfolding es sorted_wrt_append using fs ls cross by blast
    moreover have "list_all (\<lambda>x. elem_start t x < elem_end t x) es"
      unfolding es using fo lo
      by (auto simp: list_all_iff spanOk_def elem_start_def elem_end_def)
    ultimately show ?thesis by simp
  qed
qed

lemma sorted_spans_strict:
  "sorted_wrt (\<lambda>a b. elem_end t a \<le> elem_start t b) es \<Longrightarrow>
   list_all (\<lambda>x. elem_start t x < elem_end t x) es \<Longrightarrow>
   sorted_wrt (\<lambda>a b. elem_start t a < elem_start t b) es"
proof (induction es)
  case Nil
  then show ?case by simp
next
  case (Cons x xs)
  then show ?case by (auto simp: list_all_iff) 
qed

lemma getNodes_kind:
  "getNodes t str sourceFile c = Inr es \<Longrightarrow> kind (t c) \<in> commentNodeParserKinds"
  by (auto simp: getNodes_def getContainerChildren_def commentNodeParserKinds_def Let_def
      split: sum.splits if_splits)

lemma getNodes_no_children_general:
  assumes "kind (t container) \<in> commentNodeParserKinds"
    and "length (elements (t container)) = 0"
  shows "\<exists>createCommentList.
           getCreationFunction t container = Inr createCommentList
           \<and> getNodes t str sourceFile container =
               (case getContainerBodyPos t sourceFile container of
                  Inl e \<Rightarrow> Inl e
                | Inr bodyStartPos \<Rightarrow>
                    Inr (map ListNode
                           (fst (getCommentNodes createCommentList str False
                                   (setFullStartAndPos bodyStartPos
                                      (setParent container getScannerForSourceFile))))))"
proof -
  from assms(1) obtain mk where mk: "getCreationFunction t container = Inr mk"
    by (auto simp: commentNodeParserKinds_def getCreationFunction_def getCtor_def
        isStatementContainerNode_def)
  from assms have cs: "getContainerChildren t container = Inr []"
    by (auto simp: commentNodeParserKinds_def getContainerChildren_def)
  show ?thesis using mk cs by (auto simp: getNodes_def split: sum.splits)
qed

lemma getNodes_loop_noDoc:
  assumes mk: "\<And>fs p e cs. comments (mk fs p e cs) = cs"
  shows "\<forall>l. ListNode l \<in> set (fst (getNodes_loop t mk str s cs)) \<longrightarrow>
           \<not> list_ex isJsDocComment (comments l)"
proof (induction cs arbitrary: s)
  case Nil
  then show ?case by simp
next
  case (Cons c rest)
  let ?s0 = "setFullStartAndPos (pos (t c)) s"
  obtain ls s1 where g: "getCommentNodes mk str True ?s0 = (ls, s1)"
    by (cases "getCommentNodes mk str True ?s0")
  obtain others s2 where r: "getNodes_loop t mk str s1 rest = (others, s2)"
    by (cases "getNodes_loop t mk str s1 rest")
  have eq: "fst (getNodes_loop t mk str s (c # rest)) = map ListNode ls @ RealNode c # others"
    by (simp add: g r)
  have "set ls \<subseteq> set (fst (getLeadingComments mk True str (skipTrailingLine str ?s0)))"
    using g by (auto simp: getCommentNodes_eq Let_def)
  moreover have "\<forall>l\<in>set (fst (getLeadingComments mk True str (skipTrailingLine str ?s0))).
      \<not> list_ex isJsDocComment (comments l)"
    unfolding getLeadingComments_stop[of mk, OF mk] using set_takeWhileD by fast
  ultimately have a: "\<forall>l\<in>set ls. \<not> list_ex isJsDocComment (comments l)" by blast
  from Cons.IH[of s1] r have b: "\<forall>l. ListNode l \<in> set others \<longrightarrow>
           \<not> list_ex isJsDocComment (comments l)" by simp
  show ?case unfolding eq using a b by auto
qed

section \<open>Facts about the passes and what lies between the elements\<close>


















section \<open>Facts about the caches and the token enumeration\<close>

lemma getOrParseChildren_cases:
  assumes run: "getOrParseChildren t str sourceFile st k = Inr (r, st')"
  obtains (hit) c where "(if isSyntaxList (t k) then parent (t k) else Some k) = Some c"
      "childrenSaver st c = Some r" "st' = st"
  | (miss) c nodes where "(if isSyntaxList (t k) then parent (t k) else Some k) = Some c"
      "childrenSaver st c = None" "getNodes t str sourceFile c = Inr nodes"
      "r = ArrayRef (length (arrays st))"
      "st' = st\<lparr>arrays := arrays st @ [nodes], childrenSaver := (childrenSaver st)(c \<mapsto> r)\<rparr>"
proof (cases "if isSyntaxList (t k) then parent (t k) else Some k")
  case None
  with run show ?thesis by (simp add: getOrParseChildren_def)
next
  case (Some c)
  show ?thesis
  proof (cases "childrenSaver st c")
    case found: (Some r')
    with run Some have "r' = r" "st' = st" by (simp_all add: getOrParseChildren_def)
    with found Some hit show ?thesis by simp
  next
    case None
    show ?thesis
    proof (cases "getNodes t str sourceFile c")
      case (Inl e)
      with run Some None show ?thesis by (simp add: getOrParseChildren_def)
    next
      case (Inr nodes)
      with run Some None have "r = ArrayRef (length (arrays st))"
        "st' = st\<lparr>arrays := arrays st @ [nodes], childrenSaver := (childrenSaver st)(c \<mapsto> r)\<rparr>"
        by (auto simp: getOrParseChildren_def newArray_def)
      with Some None Inr miss show ?thesis by simp
    qed
  qed
qed

lemma getOrParseChildren_again:
  assumes "getOrParseChildren t str sourceFile st k = Inr (r, st')"
  shows "getOrParseChildren t str sourceFile st' k = Inr (r, st')"
  using assms
proof (cases rule: getOrParseChildren_cases)
  case (hit c)
  then show ?thesis using assms by simp
next
  case (miss c nodes)
  then show ?thesis by (simp add: getOrParseChildren_def)
qed

lemma getOrParseChildren_keeps:
  assumes "getOrParseChildren t str sourceFile st k = Inr (r, st')"
  shows "tokenSaver st' = tokenSaver st"
    and "childrenSaver st c0 = Some r0 \<Longrightarrow> childrenSaver st' c0 = Some r0"
    and "kind (t c0) \<notin> commentNodeParserKinds \<Longrightarrow> childrenSaver st' c0 = childrenSaver st c0"
  using assms
  by (cases rule: getOrParseChildren_cases; auto dest: getNodes_kind)+

lemma parseChildSyntaxList_keeps:
  assumes "parseChildSyntaxList t str sourceFile st n = Inr (result, st')"
  shows "tokenSaver st' = tokenSaver st"
    and "childrenSaver st c0 = Some r0 \<Longrightarrow> childrenSaver st' c0 = Some r0"
    and "kind (t c0) \<notin> commentNodeParserKinds \<Longrightarrow> childrenSaver st' c0 = childrenSaver st c0"
proof -
  from assms obtain children where
    c: "getOrParseChildren t str sourceFile st n = Inr (children, st')"
    by (auto simp: parseChildSyntaxList_def Let_def split: sum.splits prod.splits option.splits)
  show "tokenSaver st' = tokenSaver st" by (rule getOrParseChildren_keeps(1)[OF c])
  show "childrenSaver st c0 = Some r0 \<Longrightarrow> childrenSaver st' c0 = Some r0"
    by (rule getOrParseChildren_keeps(2)[OF c])
  show "kind (t c0) \<notin> commentNodeParserKinds \<Longrightarrow> childrenSaver st' c0 = childrenSaver st c0"
    by (rule getOrParseChildren_keeps(3)[OF c])
qed

lemma parseNode_keeps:
  assumes "parseNode t str st n = Inr (r, st')"
  shows "tokenSaver st' = tokenSaver st" and "childrenSaver st' = childrenSaver st"
  using assms
  by (auto simp: parseNode_def newArray_def Let_def split: if_splits sum.splits)

lemma getTokens_keeps:
  assumes run: "getTokens t str sourceFile st n = Inr (r, st')"
  shows "tokenSaver st' = tokenSaver st
    \<and> (childrenSaver st c0 = Some r0 \<longrightarrow> childrenSaver st' c0 = Some r0)
    \<and> (kind (t c0) \<notin> commentNodeParserKinds \<longrightarrow> childrenSaver st' c0 = childrenSaver st c0)"
proof (cases n)
  case (CommentListRef l)
  with run show ?thesis by (simp add: getTokens_def)
next
  case (TsNode m)
  show ?thesis
  proof (cases "if isSyntaxList (t m) then isChildSyntaxList t m else Inr False")
    case (Inl e)
    with run TsNode show ?thesis by (simp add: getTokens_def)
  next
    case (Inr b)
    show ?thesis
    proof (cases b)
      case True
      with run TsNode Inr obtain result st1 where
        p: "parseChildSyntaxList t str sourceFile st m = Inr (result, st1)"
        and e: "(r, st') = newArray result st1"
        by (auto simp: getTokens_def split: sum.splits)
      from e have "tokenSaver st' = tokenSaver st1" "childrenSaver st' = childrenSaver st1"
        by (simp_all add: newArray_def)
      with parseChildSyntaxList_keeps[OF p] show ?thesis by simp
    next
      case False
      with run TsNode Inr have "parseNode t str st m = Inr (r, st')"
        by (simp add: getTokens_def)
      from parseNode_keeps[OF this] show ?thesis by simp
    qed
  qed
qed

lemma getOrParseTokens_cases:
  assumes run: "getOrParseTokens t str sourceFile st n = Inr (r, st')"
  obtains (hit) "tokenSaver st n = Some r" "st' = st"
  | (miss) st1 where "tokenSaver st n = None" "getTokens t str sourceFile st n = Inr (r, st1)"
      "st' = st1\<lparr>tokenSaver := (tokenSaver st1)(n \<mapsto> r)\<rparr>"
proof (cases "tokenSaver st n")
  case (Some r')
  with run have "r' = r" "st' = st" by (simp_all add: getOrParseTokens_def)
  with Some hit show ?thesis by simp
next
  case None
  show ?thesis
  proof (cases "getTokens t str sourceFile st n")
    case (Inl e)
    with run None show ?thesis by (simp add: getOrParseTokens_def)
  next
    case (Inr p)
    obtain r1 st1 where p: "p = (r1, st1)" by (cases p)
    with run None Inr have "r1 = r" "st' = st1\<lparr>tokenSaver := (tokenSaver st1)(n \<mapsto> r)\<rparr>"
      by (auto simp: getOrParseTokens_def)
    with None Inr p miss show ?thesis by simp
  qed
qed

lemma getOrParseTokens_again:
  assumes "getOrParseTokens t str sourceFile st n = Inr (r, st')"
  shows "getOrParseTokens t str sourceFile st' n = Inr (r, st')"
  using assms
proof (cases rule: getOrParseTokens_cases)
  case hit
  then show ?thesis using assms by simp
next
  case (miss st1)
  then show ?thesis by (simp add: getOrParseTokens_def)
qed

lemma getOrParseTokens_keeps:
  assumes "getOrParseTokens t str sourceFile st n = Inr (r, st')"
  shows "(childrenSaver st c0 = Some r0 \<longrightarrow> childrenSaver st' c0 = Some r0)
    \<and> (kind (t c0) \<notin> commentNodeParserKinds \<longrightarrow> childrenSaver st' c0 = childrenSaver st c0)"
  using assms
proof (cases rule: getOrParseTokens_cases)
  case hit
  then show ?thesis by simp
next
  case (miss st1)
  then show ?thesis using getTokens_keeps[OF miss(2), of c0 r0] by simp
qed

lemma getOrParseChildren_store:
  assumes a: "getOrParseChildren t str sourceFile st k = Inr (r, st')"
  shows "\<exists>container. (if isSyntaxList (t k) then parent (t k) else Some k) = Some container
           \<and> childrenSaver st' container = Some r
           \<and> (\<forall>r0. childrenSaver st container = Some r0 \<longrightarrow> r = r0 \<and> st' = st)
           \<and> (childrenSaver st container = None \<longrightarrow>
                (\<exists>nodes. getNodes t str sourceFile container = Inr nodes
                   \<and> r = ArrayRef (length (arrays st))
                   \<and> st' = st\<lparr>arrays := arrays st @ [nodes],
                               childrenSaver := (childrenSaver st)(container \<mapsto> r)\<rparr>
                   \<and> deref t st' r = nodes))"
  using a
proof (cases rule: getOrParseChildren_cases)
  case (hit c)
  then show ?thesis by (intro exI[of _ c]) simp
next
  case (miss c nodes)
  then show ?thesis by (intro exI[of _ c]) (simp add: deref_def)
qed

lemma getOrParseTokens_store:
  assumes a: "getOrParseTokens t str sourceFile st n = Inr (r, st')"
  shows "tokenSaver st' n = Some r
      \<and> (\<forall>r0. tokenSaver st n = Some r0 \<longrightarrow> r = r0 \<and> st' = st)
      \<and> (tokenSaver st n = None \<longrightarrow>
           (\<exists>st1. getTokens t str sourceFile st n = Inr (r, st1)
                  \<and> st' = st1\<lparr>tokenSaver := (tokenSaver st1)(n \<mapsto> r)\<rparr>))
      \<and> (\<forall>m r0. tokenSaver st m = Some r0 \<longrightarrow> tokenSaver st' m = Some r0)"
  using a
proof (cases rule: getOrParseTokens_cases)
  case hit
  then show ?thesis by simp
next
  case (miss st1)
  from getTokens_keeps[OF miss(2)] have ts: "tokenSaver st1 = tokenSaver st" by simp
  have "tokenSaver st' n = Some r" using miss(3) by simp
  moreover have "\<forall>r0. tokenSaver st n = Some r0 \<longrightarrow> r = r0 \<and> st' = st"
    using miss(1) by simp
  moreover have "\<exists>st1. getTokens t str sourceFile st n = Inr (r, st1)
                  \<and> st' = st1\<lparr>tokenSaver := (tokenSaver st1)(n \<mapsto> r)\<rparr>"
    using miss(2,3) by blast
  moreover have "\<forall>m r0. tokenSaver st m = Some r0 \<longrightarrow> tokenSaver st' m = Some r0"
    using miss(1,3) ts by auto
  ultimately show ?thesis by blast
qed

lemma indexOf_found:
  "i < length xs \<Longrightarrow> xs ! i = x \<Longrightarrow> x \<notin> set (take i xs) \<Longrightarrow> indexOf xs x = int i"
proof (induction xs arbitrary: i)
  case Nil
  then show ?case by simp
next
  case (Cons y ys)
  show ?case
  proof (cases i)
    case 0
    with Cons.prems show ?thesis by simp
  next
    case (Suc j)
    with Cons.prems have j: "j < length ys" "ys ! j = x" "x \<notin> set (take j ys)" and "y \<noteq> x"
      by auto
    from Cons.IH[OF j] \<open>y \<noteq> x\<close> show ?thesis using Suc by (simp add: Let_def)
  qed
qed

lemma getSearchEnd_at:
  assumes par: "parent (t syntaxList) = Some p" and k: "kind (t p) \<noteq> SourceFile"
    and i: "i < length (getChildren (t p))" "getChildren (t p) ! i = syntaxList"
      "syntaxList \<notin> set (take i (getChildren (t p)))"
  shows "getSearchEnd t sourceFile syntaxList =
           Inr (if Suc i < length (getChildren (t p))
                   \<and> kind (t (getChildren (t p) ! Suc i)) = CloseBraceToken
                then int (node_end (t (getChildren (t p) ! Suc i))) - 1
                else int (node_end (t sourceFile)))"
proof -
  from i have ix: "indexOf (getChildren (t p)) syntaxList = int i"
    by (simp add: indexOf_found)
  have "at_index (getChildren (t p)) (int i + 1) =
      (if Suc i < length (getChildren (t p)) then Some (getChildren (t p) ! Suc i) else None)"
    by (auto simp: at_index_def nat_add_distrib)
  then show ?thesis using par k ix by (simp add: getSearchEnd_def Let_def)
qed

lemma parseChildSyntaxList_result:
  assumes par: "parent (t syntaxList) = Some p"
    and run: "parseChildSyntaxList t str sourceFile st syntaxList = Inr (result, st')"
  shows "\<exists>children searchEnd body s1 trailing.
            getOrParseChildren t str sourceFile st syntaxList = Inr (children, st')
            \<and> getSearchEnd t sourceFile syntaxList = Inr searchEnd
            \<and> parseChildSyntaxList_loop t str
                  (setFullStartAndPos (pos (t syntaxList)) (setParent p getScannerForSourceFile))
                  (deref t st' children) = (body, s1)
            \<and> trailing = takeWhile (\<lambda>c. int (c_pos c) \<le> searchEnd)
                             (fst (scanUntilToken str s1))
            \<and> result = body @ map CommentNode trailing
            \<and> list_all (\<lambda>c. int (c_pos c) \<le> searchEnd) trailing"
proof -
  from run obtain children where
    c: "getOrParseChildren t str sourceFile st syntaxList = Inr (children, st')"
    by (auto simp: parseChildSyntaxList_def Let_def split: sum.splits prod.splits option.splits)
  from run c obtain searchEnd where e: "getSearchEnd t sourceFile syntaxList = Inr searchEnd"
    by (auto simp: parseChildSyntaxList_def Let_def split: sum.splits prod.splits option.splits)
  let ?sc = "setFullStartAndPos (pos (t syntaxList)) (setParent p getScannerForSourceFile)"
  obtain body s1 where l: "parseChildSyntaxList_loop t str ?sc (deref t st' children) = (body, s1)"
    by (cases "parseChildSyntaxList_loop t str ?sc (deref t st' children)")
  let ?trailing = "takeWhile (\<lambda>c. int (c_pos c) \<le> searchEnd) (fst (scanUntilToken str s1))"
  from run c e l par have "result = body @ map CommentNode ?trailing"
    by (simp add: parseChildSyntaxList_def Let_def)
  moreover have "list_all (\<lambda>c. int (c_pos c) \<le> searchEnd) ?trailing"
    by (auto simp: list_all_iff dest: set_takeWhileD)
  ultimately show ?thesis using c e l by blast
qed

section \<open>Evaluating the examples\<close>

lemma groups_run: "getNodes groups_tree groups_text 0 0 = Inr groups_children"
  by code_simp

lemma groups_wf: "wellFormedChildren groups_tree groups_text (elements (groups_tree 0))"
  by code_simp

lemma groups_ne: "groups_children \<noteq> []" by (simp add: groups_children_def)

lemma statementList_creation: "getCreationFunction groups_tree 0 = Inr (statementList 0)"
  by (simp add: getCreationFunction_def getCtor_def isStatementContainerNode_def
      groups_tree_def node0_def statementList_def)

lemma enum_run: "getNodes enum_tree enum_text 0 1 = Inr enum_children"
  by code_simp

lemma enum_creation: "getCreationFunction enum_tree 0 = Inr (statementList 0)"
  by (simp add: getCreationFunction_def getCtor_def isStatementContainerNode_def
      enum_tree_def node0_def statementList_def)

lemma enum_first:
  "getOrParseChildren enum_tree enum_text 0 emptyState 6 = Inr (ArrayRef 0, enum_state)"
proof -
  have "isSyntaxList (enum_tree 6)" "parent (enum_tree 6) = Some 1" by code_simp+
  then show ?thesis
    by (simp add: getOrParseChildren_def enum_run[unfolded One_nat_def] newArray_def
        emptyState_def enum_state_def)
qed

lemma enum_parent: "parent (enum_tree 6) = Some 1"
  by code_simp

lemma enum_tokens:
  "getOrParseTokens enum_tree enum_text 0 emptyState (TsNode 6) = Inr (ArrayRef 1, enum_token_state)"
proof -
  have k: "isSyntaxList (enum_tree 6)" "isChildSyntaxList enum_tree 6 = Inr True"
    by code_simp+
  have m: "map_sum id fst (parseChildSyntaxList enum_tree enum_text 0 emptyState 6) = Inr enum_children"
    by code_simp
  then obtain st1 where
    x: "parseChildSyntaxList enum_tree enum_text 0 emptyState 6 = Inr (enum_children, st1)"
    by (cases "parseChildSyntaxList enum_tree enum_text 0 emptyState 6") auto
  from parseChildSyntaxList_result[OF enum_parent x] enum_first have "st1 = enum_state"
    by auto
  with x have p: "parseChildSyntaxList enum_tree enum_text 0 emptyState 6 = Inr (enum_children, enum_state)"
    by simp
  have g: "getTokens enum_tree enum_text 0 emptyState (TsNode 6) = Inr (newArray enum_children enum_state)"
    by (simp add: getTokens_def k p)
  have e: "tokenSaver emptyState (TsNode 6) = None" by (simp add: emptyState_def)
  show ?thesis
    by (simp add: getOrParseTokens_def e g newArray_def enum_state_def enum_token_state_def)
qed

lemma only_kind: "kind (only_tree 1) \<in> commentNodeParserKinds"
  by (simp add: only_tree_def node0_def commentNodeParserKinds_def)

lemma only_empty: "length (elements (only_tree 1)) = 0"
  by (simp add: only_tree_def node0_def)

section \<open>Coverage of the body span\<close>




section \<open>Order of the elements\<close>

text \<open>
  Claim C2. The start offset of an element is the start of its significant content:
  \<^verbatim>\<open>getStart\<close> of a child, \<^verbatim>\<open>pos\<close> of a comment list. For a container whose
  children are as the parser builds them for the text, the elements of the sequence that
  \<^verbatim>\<open>getNodes\<close> computes are strictly increasing by start offset, and each element
  ends at or before the start of every later one. \<^verbatim>\<open>getOrParseChildren\<close> stores and
  returns exactly that sequence on a miss.
\<close>

theorem getNodes_ordered:
  assumes "getNodes t str sourceFile container = Inr es"
    and "wellFormedChildren t str (elements (t container))"
  shows "sorted_wrt (\<lambda>a b. elem_start t a < elem_start t b) es
       \<and> sorted_wrt (\<lambda>a b. elem_end t a \<le> elem_start t b) es
       \<and> (\<not> isSyntaxList (t container) \<and> childrenSaver st container = None \<longrightarrow>
            (\<exists>r st'. getOrParseChildren t str sourceFile st container = Inr (r, st')
                      \<and> deref t st' r = es))"
proof -
  have "\<exists>r st'. getOrParseChildren t str sourceFile st container = Inr (r, st')
                      \<and> deref t st' r = es"
    if "\<not> isSyntaxList (t container) \<and> childrenSaver st container = None"
    using that assms(1)
    by (simp add: getOrParseChildren_def newArray_def deref_def)
  then show ?thesis
    using getNodes_spans[OF assms] sorted_spans_strict by blast
qed

theorem getNodes_ordered_witness:
  "wellFormedChildren groups_tree groups_text (elements (groups_tree 0))
   \<and> getNodes groups_tree groups_text 0 0 = Inr groups_children
   \<and> sorted_wrt (\<lambda>a b. elem_start groups_tree a < elem_start groups_tree b) groups_children
   \<and> sorted_wrt (\<lambda>a b. elem_end groups_tree a \<le> elem_start groups_tree b) groups_children"
  using getNodes_ordered[OF groups_run groups_wf, of emptyState] groups_run groups_wf by simp

section \<open>The stop rule for documentation comments\<close>

text \<open>
  Claim C3. A comment is a documentation comment when its kind is
  \<^verbatim>\<open>JSDocComment\<close> or its text starts with \<^verbatim>\<open>/**\<close> and is not \<^verbatim>\<open>/***/\<close>.
  With \<^verbatim>\<open>stopAtJsDoc\<close> set, \<^verbatim>\<open>getLeadingComments\<close> stops in front of a scanned
  group that holds a documentation comment: it yields nothing for that group or behind
  it and leaves the scanner where the scan of the group ended. So with the flag it yields
  the groups that it yields without the flag up to, and not including, the first group
  that holds a documentation comment, and no comment list that it yields holds one; nor
  does any comment list that \<^verbatim>\<open>getNodes\<close> puts in front of a child, where the flag
  is set. Without the flag the check is not applied: every group that is not empty is
  wrapped in a comment list, whatever it holds, and the pass goes on behind it. With
  either value of the flag an empty scan ends the pass.
\<close>

theorem getLeadingComments_stopAtJsDoc:
  assumes "getCreationFunction t container = Inr createCommentList"
  shows "fst (getLeadingComments createCommentList True str s) =
           takeWhile (\<lambda>l. \<not> list_ex isJsDocComment (comments l))
             (fst (getLeadingComments createCommentList False str s))
         \<and> (\<forall>l \<in> set (fst (getLeadingComments createCommentList True str s)).
               \<forall>c \<in> set (comments l).
                 c_kind c \<noteq> JSDocComment
                 \<and> \<not> (take 3 (c_text c) = ''/**'' \<and> c_text c \<noteq> ''/***/''))
         \<and> (\<forall>cs s'. scanForNewLines str s = (cs, s')
               \<and> (\<exists>c\<in>set cs. c_kind c = JSDocComment
                                \<or> (take 3 (c_text c) = ''/**'' \<and> c_text c \<noteq> ''/***/'')) \<longrightarrow>
               getLeadingComments createCommentList True str s = ([], s'))
         \<and> (\<forall>cs s'. scanForNewLines str s = (cs, s') \<and> cs \<noteq> [] \<longrightarrow>
               getLeadingComments createCommentList False str s =
                 (createCommentList (c_fullStart (hd cs)) (c_pos (hd cs)) (c_end (last cs)) cs
                    # fst (getLeadingComments createCommentList False str s'),
                  snd (getLeadingComments createCommentList False str s')))
         \<and> (\<forall>s'. scanForNewLines str s = ([], s') \<longrightarrow>
               getLeadingComments createCommentList stopAtJsDoc str s = ([], s'))
         \<and> (\<forall>l. ListNode l \<in> set (fst (getNodes_loop t createCommentList str s childNodes)) \<longrightarrow>
               (\<forall>c \<in> set (comments l).
                  c_kind c \<noteq> JSDocComment
                  \<and> \<not> (take 3 (c_text c) = ''/**'' \<and> c_text c \<noteq> ''/***/'')))"
proof -
  have mk: "\<And>fs p e cs. comments (createCommentList fs p e cs) = cs"
    using getCreationFunction_fields(3)[OF assms] .
  have 1: "fst (getLeadingComments createCommentList True str s) =
           takeWhile (\<lambda>l. \<not> list_ex isJsDocComment (comments l))
             (fst (getLeadingComments createCommentList False str s))"
    by (rule getLeadingComments_stop[OF mk])
  have 2: "\<And>l. l \<in> set (fst (getLeadingComments createCommentList True str s)) \<Longrightarrow>
          \<not> list_ex isJsDocComment (comments l)"
    unfolding 1 using set_takeWhileD by fast
  have 3: "\<forall>l \<in> set (fst (getLeadingComments createCommentList True str s)).
          \<forall>c \<in> set (comments l). \<not> isJsDocComment c"
    using 2 unfolding list_ex_iff by blast
  have noDoc: "\<forall>l \<in> set (fst (getLeadingComments createCommentList True str s)).
               \<forall>c \<in> set (comments l).
                 c_kind c \<noteq> JSDocComment
                 \<and> \<not> (take 3 (c_text c) = ''/**'' \<and> c_text c \<noteq> ''/***/'')"
    using 3 unfolding isJsDocComment_def by blast
  have 4: "getLeadingComments createCommentList True str s = ([], s')"
    if sc: "scanForNewLines str s = (cs, s')"
      and d: "\<exists>c\<in>set cs. c_kind c = JSDocComment
                                \<or> (take 3 (c_text c) = ''/**'' \<and> c_text c \<noteq> ''/***/'')"
    for cs s'
  proof -
    from d have "list_ex isJsDocComment cs"
      unfolding list_ex_iff isJsDocComment_def by blast
    then show ?thesis by (simp add: getLeadingComments_unfold[OF sc])
  qed
  have 5: "getLeadingComments createCommentList False str s =
                 (createCommentList (c_fullStart (hd cs)) (c_pos (hd cs)) (c_end (last cs)) cs
                    # fst (getLeadingComments createCommentList False str s'),
                  snd (getLeadingComments createCommentList False str s'))"
    if sc: "scanForNewLines str s = (cs, s')" and ne: "cs \<noteq> []" for cs s'
    using ne by (simp add: getLeadingComments_unfold[OF sc])
  have 6: "getLeadingComments createCommentList stopAtJsDoc str s = ([], s')"
    if sc: "scanForNewLines str s = ([], s')" for s'
    by (simp add: getLeadingComments_unfold[OF sc])
  have 7: "\<forall>l. ListNode l \<in> set (fst (getNodes_loop t createCommentList str s childNodes)) \<longrightarrow>
               (\<forall>c \<in> set (comments l).
                  c_kind c \<noteq> JSDocComment
                  \<and> \<not> (take 3 (c_text c) = ''/**'' \<and> c_text c \<noteq> ''/***/''))"
    using getNodes_loop_noDoc[of createCommentList t str s childNodes, OF mk]
    unfolding list_ex_iff isJsDocComment_def by blast
  from 1 noDoc 4 5 6 7 show ?thesis by (intro conjI allI impI) blast+
qed

theorem getLeadingComments_stopAtJsDoc_witness:
  "fst (getLeadingComments (statementList 0) False jsdoc_text getScannerForSourceFile) =
     [listOf Statement 0 [lineComment 0 0 4 ''// a''],
      listOf Statement 0 [blockComment 4 6 14 ''/** d */'']]
   \<and> fst (getLeadingComments (statementList 0) True jsdoc_text getScannerForSourceFile) =
     [listOf Statement 0 [lineComment 0 0 4 ''// a'']]
   \<and> scanForNewLines jsdoc_text (setPos 5 (setFullStartAndPos 4 getScannerForSourceFile)) =
       ([blockComment 4 6 14 ''/** d */''], setPos 15 (setFullStartAndPos 14 getScannerForSourceFile))
   \<and> getLeadingComments (statementList 0) True jsdoc_text
         (setPos 5 (setFullStartAndPos 4 getScannerForSourceFile)) =
       ([], setPos 15 (setFullStartAndPos 14 getScannerForSourceFile))
   \<and> getLeadingComments (statementList 0) False jsdoc_text
         (setPos 5 (setFullStartAndPos 4 getScannerForSourceFile)) =
       ([listOf Statement 0 [blockComment 4 6 14 ''/** d */'']],
        setPos 15 (setFullStartAndPos 14 getScannerForSourceFile))"
proof -
  let ?s1 = "setPos 5 (setFullStartAndPos 4 getScannerForSourceFile)"
  let ?s2 = "setPos 15 (setFullStartAndPos 14 getScannerForSourceFile)"
  have all: "fst (getLeadingComments (statementList 0) False jsdoc_text getScannerForSourceFile) =
     [listOf Statement 0 [lineComment 0 0 4 ''// a''],
      listOf Statement 0 [blockComment 4 6 14 ''/** d */'']]"
    by code_simp
  have doc: "list_ex isJsDocComment (comments (listOf Statement 0 [blockComment 4 6 14 ''/** d */'']))"
    "\<not> list_ex isJsDocComment (comments (listOf Statement 0 [lineComment 0 0 4 ''// a'']))"
    by code_simp+
  have sc: "scanForNewLines jsdoc_text ?s1 = ([blockComment 4 6 14 ''/** d */''], ?s2)"
    by code_simp
  have d: "\<exists>c\<in>set [blockComment 4 6 14 ''/** d */'']. c_kind c = JSDocComment
                                \<or> (take 3 (c_text c) = ''/**'' \<and> c_text c \<noteq> ''/***/'')"
    by code_simp
  have e: "scanForNewLines jsdoc_text ?s2 = ([], ?s2)" by code_simp
  have l: "statementList 0 (c_fullStart (hd [blockComment 4 6 14 ''/** d */'']))
             (c_pos (hd [blockComment 4 6 14 ''/** d */'']))
             (c_end (last [blockComment 4 6 14 ''/** d */''])) [blockComment 4 6 14 ''/** d */'']
           = listOf Statement 0 [blockComment 4 6 14 ''/** d */'']"
    by (simp add: statementList_def listOf_def)
  note th0 = getLeadingComments_stopAtJsDoc[OF statementList_creation,
      of jsdoc_text getScannerForSourceFile]
  note th1 = getLeadingComments_stopAtJsDoc[OF statementList_creation, of jsdoc_text ?s1 False]
  note th2 = getLeadingComments_stopAtJsDoc[OF statementList_creation, of jsdoc_text ?s2 False]
  from th2 e have r2: "getLeadingComments (statementList 0) False jsdoc_text ?s2 = ([], ?s2)"
    by blast
  from th1 sc d have r1: "getLeadingComments (statementList 0) True jsdoc_text ?s1 = ([], ?s2)"
    by blast
  from th1 sc have "getLeadingComments (statementList 0) False jsdoc_text ?s1 =
      (statementList 0 (c_fullStart (hd [blockComment 4 6 14 ''/** d */'']))
             (c_pos (hd [blockComment 4 6 14 ''/** d */'']))
             (c_end (last [blockComment 4 6 14 ''/** d */''])) [blockComment 4 6 14 ''/** d */'']
         # fst (getLeadingComments (statementList 0) False jsdoc_text ?s2),
       snd (getLeadingComments (statementList 0) False jsdoc_text ?s2))"
    by blast
  then have r3: "getLeadingComments (statementList 0) False jsdoc_text ?s1 =
       ([listOf Statement 0 [blockComment 4 6 14 ''/** d */'']], ?s2)"
    unfolding l r2 by simp
  from th0 have "fst (getLeadingComments (statementList 0) True jsdoc_text getScannerForSourceFile) =
           takeWhile (\<lambda>l. \<not> list_ex isJsDocComment (comments l))
             (fst (getLeadingComments (statementList 0) False jsdoc_text getScannerForSourceFile))"
    by blast
  then have r0: "fst (getLeadingComments (statementList 0) True jsdoc_text getScannerForSourceFile) =
     [listOf Statement 0 [lineComment 0 0 4 ''// a'']]"
    unfolding all using doc by simp
  from all r0 sc r1 r3 show ?thesis by blast
qed

section \<open>The ceiling of a pass\<close>

text \<open>
  Claim C4. \<^verbatim>\<open>getCommentNodes\<close> yields exactly the comment lists of
  \<^verbatim>\<open>getLeadingComments\<close> whose end is at or before the ceiling. With \<open>p\<close> the
  position of the scanner after \<^verbatim>\<open>getLeadingComments\<close>, the ceiling is \<open>p\<close>
  when \<open>p\<close> is the length of the text or the character at \<open>p\<close> is a close
  brace, and the line start of \<open>p\<close> otherwise: the offset behind the last line
  break in front of \<open>p\<close>, or 0 when there is none.
\<close>

theorem getCommentNodes_ceiling:
  "fst (getCommentNodes mk str stopAtJsDoc s) =
     filter (\<lambda>l. cl_end l \<le>
               (let p = getPos (snd (getLeadingComments mk stopAtJsDoc str (skipTrailingLine str s)))
                in if p = length str \<or> char_at str p = Some (CHR ''}'') then p
                   else getLineStartFromPos str p))
       (fst (getLeadingComments mk stopAtJsDoc str (skipTrailingLine str s)))
   \<and> getLineStartFromPos str p \<le> p
   \<and> (getLineStartFromPos str p = 0
        \<or> char_at str (getLineStartFromPos str p - 1) = Some (CHR 0x0A))
   \<and> \<not> (\<exists>q. getLineStartFromPos str p \<le> q \<and> q < p \<and> char_at str q = Some (CHR 0x0A))"
proof -
  have "fst (getCommentNodes mk str stopAtJsDoc s) =
     filter (\<lambda>l. cl_end l \<le>
               (let p = getPos (snd (getLeadingComments mk stopAtJsDoc str (skipTrailingLine str s)))
                in if p = length str \<or> char_at str p = Some (CHR ''}'') then p
                   else getLineStartFromPos str p))
       (fst (getLeadingComments mk stopAtJsDoc str (skipTrailingLine str s)))"
    by (auto simp: getCommentNodes_def yieldUpTo_filter Let_def split: prod.splits
        intro!: filter_cong)
  with getLineStartFromPos_le[of str p] getLineStartFromPos_spec[of str p]
  show ?thesis by blast
qed

theorem getCommentNodes_ceiling_witness:
  "fst (getLeadingComments (statementList 0) True ceiling_text
          (skipTrailingLine ceiling_text (setFullStartAndPos 2 getScannerForSourceFile))) =
     [listOf Statement 0 [lineComment 2 3 7 ''// c''],
      listOf Statement 0 [blockComment 7 9 16 ''/* d */'']]
   \<and> getPos (snd (getLeadingComments (statementList 0) True ceiling_text
          (skipTrailingLine ceiling_text (setFullStartAndPos 2 getScannerForSourceFile)))) = 17
   \<and> getLineStartFromPos ceiling_text 17 = 9
   \<and> fst (getCommentNodes (statementList 0) ceiling_text True
          (setFullStartAndPos 2 getScannerForSourceFile)) =
     [listOf Statement 0 [lineComment 2 3 7 ''// c'']]"
proof -
  let ?s = "setFullStartAndPos 2 getScannerForSourceFile"
  have l: "fst (getLeadingComments (statementList 0) True ceiling_text
          (skipTrailingLine ceiling_text ?s)) =
     [listOf Statement 0 [lineComment 2 3 7 ''// c''],
      listOf Statement 0 [blockComment 7 9 16 ''/* d */'']]"
    by code_simp
  have p: "getPos (snd (getLeadingComments (statementList 0) True ceiling_text
          (skipTrailingLine ceiling_text ?s))) = 17"
    by code_simp
  have c: "length ceiling_text = 19" "char_at ceiling_text 17 = Some (CHR ''y'')"
    "getLineStartFromPos ceiling_text 17 = 9"
    by code_simp+
  have e: "cl_end (listOf Statement 0 [lineComment 2 3 7 ''// c'']) = 7"
    "cl_end (listOf Statement 0 [blockComment 7 9 16 ''/* d */'']) = 16"
    by code_simp+
  from getCommentNodes_ceiling[of "statementList 0" ceiling_text True ?s 17]
  show ?thesis unfolding l p using c e by simp
qed

section \<open>The skipped header line\<close>

text \<open>
  Claim C5. At position 0 \<^verbatim>\<open>skipTrailingLine\<close> skips nothing. Elsewhere it drains
  the scanner up to the first line break or significant token: every offset passed is
  whitespace or lies inside a drained comment. When the character at the resulting
  position is a comma, it steps over the comma and drains again. Hence every comment in a
  comment list of the pass has, between the start of the pass and itself, a line break or
  a significant token that is no comma: a comment on the line of the preceding boundary,
  also behind a trailing comma on that line, is in no comment list.
\<close>

theorem skipTrailingLine_header_line:
  assumes "getCreationFunction t container = Inr createCommentList"
  shows "(getPos s = 0 \<longrightarrow> skipTrailingLine str s = s)
    \<and> (getPos s \<noteq> 0 \<longrightarrow>
         skipTrailingLine str s =
           (let s' = snd (scanUntilNewLineOrToken str s) in
            if char_at str (getPos s') = Some (CHR '','')
            then skipTrailingLine str (setPos (getPos s' + 1) s') else s')
         \<and> stopsAt UntilNewLineOrToken str (getPos (snd (scanUntilNewLineOrToken str s)))
         \<and> (\<forall>q. getPos s \<le> q \<and> q < getPos (snd (scanUntilNewLineOrToken str s)) \<longrightarrow>
               (\<exists>c. char_at str q = Some c \<and> isWhitespace c)
               \<or> (\<exists>c\<in>set (fst (scanUntilNewLineOrToken str s)). c_pos c \<le> q \<and> q < c_end c))
         \<and> (\<forall>l\<in>set (fst (getCommentNodes createCommentList str stopAtJsDoc s)).
               \<forall>c\<in>set (comments l).
                 \<exists>q. getPos s \<le> q \<and> q < c_pos c
                   \<and> (char_at str q = Some (CHR 0x0A)
                        \<or> (isTokenAt str q \<and> char_at str q \<noteq> Some (CHR '','')))))"
proof (intro conjI impI)
  show "skipTrailingLine str s = s" if "getPos s = 0"
    using that by (simp add: skipTrailingLine_def)
next
  assume nz: "getPos s \<noteq> 0"
  define s' where "s' = snd (scanUntilNewLineOrToken str s)"
  have "getPos (setPos (getPos s' + 1) s') \<noteq> 0" by (simp add: getPos_def setPos_def)
  then show "skipTrailingLine str s =
           (let s' = snd (scanUntilNewLineOrToken str s) in
            if char_at str (getPos s') = Some (CHR '','')
            then skipTrailingLine str (setPos (getPos s' + 1) s') else s')"
    using nz
    by (simp add: skipTrailingLine_def skipTrailingLine_loop.simps[of str s] Let_def s'_def
        getPos_def setPos_def)
  show "stopsAt UntilNewLineOrToken str (getPos (snd (scanUntilNewLineOrToken str s)))"
    using scanLine_facts(2)[OF refl] by (simp add: getPos_def)
  obtain cs s1 where sc: "scan UntilNewLineOrToken str s = (cs, s1)"
    by (cases "scan UntilNewLineOrToken str s")
  from scanLine_drained[OF sc refl]
  show "\<forall>q. getPos s \<le> q \<and> q < getPos (snd (scanUntilNewLineOrToken str s)) \<longrightarrow>
               (\<exists>c. char_at str q = Some c \<and> isWhitespace c)
               \<or> (\<exists>c\<in>set (fst (scanUntilNewLineOrToken str s)). c_pos c \<le> q \<and> q < c_end c)"
    by (simp add: scanUntilNewLineOrToken_def sc getPos_def)
  show "\<forall>l\<in>set (fst (getCommentNodes createCommentList str stopAtJsDoc s)).
               \<forall>c\<in>set (comments l).
                 \<exists>q. getPos s \<le> q \<and> q < c_pos c
                   \<and> (char_at str q = Some (CHR 0x0A)
                        \<or> (isTokenAt str q \<and> char_at str q \<noteq> Some (CHR '','')))"
  proof (intro ballI)
    fix l c
    assume l: "l \<in> set (fst (getCommentNodes createCommentList str stopAtJsDoc s))"
      and c: "c \<in> set (comments l)"
    let ?p1 = "sc_pos (skipTrailingLine str s)"
    from getCommentNodes_spans(2)[where mk = createCommentList, OF creation_fields[OF assms]] l
    have "groupOk str ?p1 (sc_pos (snd (getCommentNodes createCommentList str stopAtJsDoc s))) l"
      by (simp add: list_all_iff)
    with c have ge: "?p1 \<le> c_pos c" and ca: "commentAt str (c_pos c) = Some (c_kind c, c_end c)"
      by (auto simp: groupOk_def)
    from nz have eq: "skipTrailingLine str s = skipTrailingLine_loop str s"
      by (simp add: skipTrailingLine_def)
    from skipTrailingLine_loop_props[of s str]
    have le: "sc_pos s \<le> ?p1" and st: "stopsAt UntilNewLineOrToken str ?p1"
      and nc: "char_at str ?p1 \<noteq> Some (CHR '','')"
      unfolding eq by simp_all
    from ca have lt: "c_pos c < length str" and sl: "char_at str (c_pos c) = Some (CHR ''/'')"
      by (auto simp: commentAt_def char_at_def split: if_splits)
    from st ca sl ge lt have ne: "?p1 \<noteq> c_pos c"
      by (auto simp: stopsAt_def isNewLine_def split: option.splits if_splits)
    from st ge lt nc have "char_at str ?p1 = Some (CHR 0x0A)
        \<or> (isTokenAt str ?p1 \<and> char_at str ?p1 \<noteq> Some (CHR '',''))"
      by (auto simp: stopsAt_def isTokenAt_def isNewLine_def char_at_def split: option.splits if_splits)
    with le ge ne show "\<exists>q. getPos s \<le> q \<and> q < c_pos c
                   \<and> (char_at str q = Some (CHR 0x0A)
                        \<or> (isTokenAt str q \<and> char_at str q \<noteq> Some (CHR '','')))"
      by (intro exI[of _ ?p1]) (simp add: getPos_def)
  qed
qed

theorem skipTrailingLine_header_line_witness:
  "skipTrailingLine enum_text getScannerForSourceFile = getScannerForSourceFile
   \<and> getPos (skipTrailingLine enum_text (setFullStartAndPos 10 getScannerForSourceFile)) = 19
   \<and> map c_text (concat (map comments
         (fst (getCommentNodes (statementList 0) enum_text False
                 (setFullStartAndPos 10 getScannerForSourceFile))))) = [''// c'']"
proof -
  let ?s = "setFullStartAndPos 10 getScannerForSourceFile"
  have z: "getPos getScannerForSourceFile = 0" "getPos ?s \<noteq> 0" by code_simp+
  have d: "snd (scanUntilNewLineOrToken enum_text ?s) = ?s"
    "char_at enum_text (getPos ?s) = Some (CHR '','')"
    "getPos (skipTrailingLine enum_text (setPos (getPos ?s + 1) ?s)) = 19"
    by code_simp+
  have c: "map c_text (concat (map comments
         (fst (getCommentNodes (statementList 0) enum_text False ?s)))) = [''// c'']"
    by code_simp
  from skipTrailingLine_header_line[OF enum_creation, of getScannerForSourceFile enum_text False]
    skipTrailingLine_header_line[OF enum_creation, of ?s enum_text False] z d c
  show ?thesis by (simp add: Let_def)
qed

section \<open>The caches are read-through\<close>

text \<open>
  Claim C6. \<^verbatim>\<open>getOrParseChildren\<close> and \<^verbatim>\<open>getOrParseTokens\<close> are read-through
  caches. A call that finds an entry under its key returns the stored reference and
  leaves the state as it is. A call that finds none computes the sequence, with
  \<^verbatim>\<open>getNodes\<close> or with \<^verbatim>\<open>getTokens\<close>, and stores the reference under the key;
  \<^verbatim>\<open>getOrParseChildren\<close> creates one array for it, at the next free address. After a
  call that has returned a reference the cache holds that reference under the key, so a
  second call with the key returns the same reference and the same state. A call keeps
  every entry that was there. The key of \<^verbatim>\<open>getOrParseChildren\<close> for a syntax list is
  the parent of the list: the call is the call for the parent, and
  \<^verbatim>\<open>childrenSaver\<close> gets no entry under a syntax list.
\<close>

theorem caches_read_through:
  "(getOrParseChildren t str sourceFile st k = Inr (r, st') \<longrightarrow>
      (\<exists>container. (if isSyntaxList (t k) then parent (t k) else Some k) = Some container
           \<and> childrenSaver st' container = Some r
           \<and> (\<forall>r0. childrenSaver st container = Some r0 \<longrightarrow> r = r0 \<and> st' = st)
           \<and> (childrenSaver st container = None \<longrightarrow>
                (\<exists>nodes. getNodes t str sourceFile container = Inr nodes
                   \<and> r = ArrayRef (length (arrays st))
                   \<and> st' = st\<lparr>arrays := arrays st @ [nodes],
                               childrenSaver := (childrenSaver st)(container \<mapsto> r)\<rparr>
                   \<and> deref t st' r = nodes)))
      \<and> getOrParseChildren t str sourceFile st' k = Inr (r, st')
      \<and> (\<forall>c r0. childrenSaver st c = Some r0 \<longrightarrow> childrenSaver st' c = Some r0)
      \<and> (\<forall>l. isSyntaxList (t l) \<longrightarrow> childrenSaver st' l = childrenSaver st l)
      \<and> tokenSaver st' = tokenSaver st)
   \<and> (getOrParseTokens t str sourceFile st n = Inr (r, st') \<longrightarrow>
      tokenSaver st' n = Some r
      \<and> (\<forall>r0. tokenSaver st n = Some r0 \<longrightarrow> r = r0 \<and> st' = st)
      \<and> (tokenSaver st n = None \<longrightarrow>
           (\<exists>st1. getTokens t str sourceFile st n = Inr (r, st1)
                  \<and> st' = st1\<lparr>tokenSaver := (tokenSaver st1)(n \<mapsto> r)\<rparr>))
      \<and> getOrParseTokens t str sourceFile st' n = Inr (r, st')
      \<and> (\<forall>m r0. tokenSaver st m = Some r0 \<longrightarrow> tokenSaver st' m = Some r0)
      \<and> (\<forall>c r0. childrenSaver st c = Some r0 \<longrightarrow> childrenSaver st' c = Some r0)
      \<and> (\<forall>l. isSyntaxList (t l) \<longrightarrow> childrenSaver st' l = childrenSaver st l))
   \<and> ((if isSyntaxList (t k) then parent (t k) else Some k) = Some c
        \<and> childrenSaver st c = Some r0 \<longrightarrow>
      getOrParseChildren t str sourceFile st k = Inr (r0, st))
   \<and> (tokenSaver st n = Some r0 \<longrightarrow> getOrParseTokens t str sourceFile st n = Inr (r0, st))
   \<and> (isSyntaxList (t k) \<and> parent (t k) = Some c \<and> \<not> isSyntaxList (t c) \<longrightarrow>
      getOrParseChildren t str sourceFile st k = getOrParseChildren t str sourceFile st c)"
proof -
  have sl: "kind (t l) \<notin> commentNodeParserKinds" if "isSyntaxList (t l)" for l
    using that by (simp add: isSyntaxList_def commentNodeParserKinds_def)
  have 1: "getOrParseChildren t str sourceFile st k = Inr (r, st') \<longrightarrow>
      (\<exists>container. (if isSyntaxList (t k) then parent (t k) else Some k) = Some container
           \<and> childrenSaver st' container = Some r
           \<and> (\<forall>r0. childrenSaver st container = Some r0 \<longrightarrow> r = r0 \<and> st' = st)
           \<and> (childrenSaver st container = None \<longrightarrow>
                (\<exists>nodes. getNodes t str sourceFile container = Inr nodes
                   \<and> r = ArrayRef (length (arrays st))
                   \<and> st' = st\<lparr>arrays := arrays st @ [nodes],
                               childrenSaver := (childrenSaver st)(container \<mapsto> r)\<rparr>
                   \<and> deref t st' r = nodes)))
      \<and> getOrParseChildren t str sourceFile st' k = Inr (r, st')
      \<and> (\<forall>c r0. childrenSaver st c = Some r0 \<longrightarrow> childrenSaver st' c = Some r0)
      \<and> (\<forall>l. isSyntaxList (t l) \<longrightarrow> childrenSaver st' l = childrenSaver st l)
      \<and> tokenSaver st' = tokenSaver st"
  proof (intro impI conjI allI)
    assume a: "getOrParseChildren t str sourceFile st k = Inr (r, st')"
    show "\<exists>container. (if isSyntaxList (t k) then parent (t k) else Some k) = Some container
           \<and> childrenSaver st' container = Some r
           \<and> (\<forall>r0. childrenSaver st container = Some r0 \<longrightarrow> r = r0 \<and> st' = st)
           \<and> (childrenSaver st container = None \<longrightarrow>
                (\<exists>nodes. getNodes t str sourceFile container = Inr nodes
                   \<and> r = ArrayRef (length (arrays st))
                   \<and> st' = st\<lparr>arrays := arrays st @ [nodes],
                               childrenSaver := (childrenSaver st)(container \<mapsto> r)\<rparr>
                   \<and> deref t st' r = nodes))"
      by (rule getOrParseChildren_store[OF a])
    show "getOrParseChildren t str sourceFile st' k = Inr (r, st')"
      by (rule getOrParseChildren_again[OF a])
    show "childrenSaver st' c = Some r0" if "childrenSaver st c = Some r0" for c r0
      using getOrParseChildren_keeps(2)[OF a that] .
    show "childrenSaver st' l = childrenSaver st l" if "isSyntaxList (t l)" for l
      using getOrParseChildren_keeps(3)[OF a sl[OF that]] .
    show "tokenSaver st' = tokenSaver st"
      by (rule getOrParseChildren_keeps(1)[OF a])
  qed
  have 2: "getOrParseTokens t str sourceFile st n = Inr (r, st') \<longrightarrow>
      tokenSaver st' n = Some r
      \<and> (\<forall>r0. tokenSaver st n = Some r0 \<longrightarrow> r = r0 \<and> st' = st)
      \<and> (tokenSaver st n = None \<longrightarrow>
           (\<exists>st1. getTokens t str sourceFile st n = Inr (r, st1)
                  \<and> st' = st1\<lparr>tokenSaver := (tokenSaver st1)(n \<mapsto> r)\<rparr>))
      \<and> getOrParseTokens t str sourceFile st' n = Inr (r, st')
      \<and> (\<forall>m r0. tokenSaver st m = Some r0 \<longrightarrow> tokenSaver st' m = Some r0)
      \<and> (\<forall>c r0. childrenSaver st c = Some r0 \<longrightarrow> childrenSaver st' c = Some r0)
      \<and> (\<forall>l. isSyntaxList (t l) \<longrightarrow> childrenSaver st' l = childrenSaver st l)"
  proof (rule impI)
    assume a: "getOrParseTokens t str sourceFile st n = Inr (r, st')"
    note s = getOrParseTokens_store[OF a]
    note k = getOrParseTokens_keeps[OF a]
    have "childrenSaver st' c = Some r0" if "childrenSaver st c = Some r0" for c r0
      using k[of c r0] that by simp
    moreover have "childrenSaver st' l = childrenSaver st l" if "isSyntaxList (t l)" for l
      using k[of l] sl[OF that] by simp
    ultimately show "tokenSaver st' n = Some r
      \<and> (\<forall>r0. tokenSaver st n = Some r0 \<longrightarrow> r = r0 \<and> st' = st)
      \<and> (tokenSaver st n = None \<longrightarrow>
           (\<exists>st1. getTokens t str sourceFile st n = Inr (r, st1)
                  \<and> st' = st1\<lparr>tokenSaver := (tokenSaver st1)(n \<mapsto> r)\<rparr>))
      \<and> getOrParseTokens t str sourceFile st' n = Inr (r, st')
      \<and> (\<forall>m r0. tokenSaver st m = Some r0 \<longrightarrow> tokenSaver st' m = Some r0)
      \<and> (\<forall>c r0. childrenSaver st c = Some r0 \<longrightarrow> childrenSaver st' c = Some r0)
      \<and> (\<forall>l. isSyntaxList (t l) \<longrightarrow> childrenSaver st' l = childrenSaver st l)"
      using s getOrParseTokens_again[OF a] by (intro conjI) (simp_all only:, blast+)
  qed
  have 3: "(if isSyntaxList (t k) then parent (t k) else Some k) = Some c
        \<and> childrenSaver st c = Some r0 \<longrightarrow>
      getOrParseChildren t str sourceFile st k = Inr (r0, st)"
    by (simp add: getOrParseChildren_def)
  have 4: "tokenSaver st n = Some r0 \<longrightarrow> getOrParseTokens t str sourceFile st n = Inr (r0, st)"
    by (simp add: getOrParseTokens_def)
  have 5: "isSyntaxList (t k) \<and> parent (t k) = Some c \<and> \<not> isSyntaxList (t c) \<longrightarrow>
      getOrParseChildren t str sourceFile st k = getOrParseChildren t str sourceFile st c"
    by (simp add: getOrParseChildren_def)
  from 1 2 3 4 5 show ?thesis by (intro conjI)
qed

theorem caches_read_through_witness:
  "getOrParseChildren enum_tree enum_text 0 emptyState 6 = Inr (ArrayRef 0, enum_state)
   \<and> childrenSaver emptyState 1 = None
   \<and> childrenSaver enum_state 1 = Some (ArrayRef 0)
   \<and> childrenSaver enum_state 6 = None
   \<and> getNodes enum_tree enum_text 0 1 = Inr (deref enum_tree enum_state (ArrayRef 0))
   \<and> getOrParseChildren enum_tree enum_text 0 enum_state 6 = Inr (ArrayRef 0, enum_state)
   \<and> getOrParseChildren enum_tree enum_text 0 enum_state 1 = Inr (ArrayRef 0, enum_state)
   \<and> getOrParseTokens enum_tree enum_text 0 emptyState (TsNode 6) = Inr (ArrayRef 1, enum_token_state)
   \<and> tokenSaver emptyState (TsNode 6) = None
   \<and> tokenSaver enum_token_state (TsNode 6) = Some (ArrayRef 1)
   \<and> (\<exists>st1. getTokens enum_tree enum_text 0 emptyState (TsNode 6) = Inr (ArrayRef 1, st1))
   \<and> getOrParseTokens enum_tree enum_text 0 enum_token_state (TsNode 6) =
        Inr (ArrayRef 1, enum_token_state)
   \<and> childrenSaver enum_token_state 6 = None"
proof -
  have k: "isSyntaxList (enum_tree 6)" "parent (enum_tree 6) = Some 1"
    "\<not> isSyntaxList (enum_tree 1)" by code_simp+
  have e: "childrenSaver emptyState 1 = None" "tokenSaver emptyState (TsNode 6) = None"
    "childrenSaver emptyState 6 = None"
    by (simp_all add: emptyState_def)
  have tgt: "(if isSyntaxList (enum_tree 6) then parent (enum_tree 6) else Some 6) = Some 1"
    using k by simp
  note c1 = caches_read_through[of enum_tree enum_text 0 emptyState 6 "ArrayRef 0" enum_state
      "TsNode 6" 1 "ArrayRef 0"]
  note c2 = caches_read_through[of enum_tree enum_text 0 enum_state 6 "ArrayRef 0" enum_state
      "TsNode 6" 1 "ArrayRef 0"]
  note c3 = caches_read_through[of enum_tree enum_text 0 emptyState 6 "ArrayRef 1" enum_token_state
      "TsNode 6" 1 "ArrayRef 0"]
  note ch = c1[THEN conjunct1, THEN mp, OF enum_first]
  from ch[THEN conjunct1] obtain container where
    t: "(if isSyntaxList (enum_tree 6) then parent (enum_tree 6) else Some 6) = Some container"
      "childrenSaver enum_state container = Some (ArrayRef 0)"
      "childrenSaver emptyState container = None \<longrightarrow>
                (\<exists>nodes. getNodes enum_tree enum_text 0 container = Inr nodes
                   \<and> ArrayRef 0 = ArrayRef (length (arrays emptyState))
                   \<and> enum_state = emptyState\<lparr>arrays := arrays emptyState @ [nodes],
                               childrenSaver := (childrenSaver emptyState)(container \<mapsto> ArrayRef 0)\<rparr>
                   \<and> deref enum_tree enum_state (ArrayRef 0) = nodes)"
    by (elim exE conjE)
  from t(1) tgt have c: "container = 1" by simp
  from t(2) c have a1: "childrenSaver enum_state 1 = Some (ArrayRef 0)" by simp
  from t(3)[unfolded c, THEN mp, OF e(1)] obtain nodes where
    n: "getNodes enum_tree enum_text 0 1 = Inr nodes"
       "deref enum_tree enum_state (ArrayRef 0) = nodes"
    by (elim exE conjE)
  from n have a2: "getNodes enum_tree enum_text 0 1 =
      Inr (deref enum_tree enum_state (ArrayRef 0))" by simp
  note a3 = ch[THEN conjunct2, THEN conjunct1]
  note ch4 = ch[THEN conjunct2, THEN conjunct2, THEN conjunct2, THEN conjunct1, THEN spec,
      THEN mp, OF k(1)]
  from ch4 e(3) have a4: "childrenSaver enum_state 6 = None" by simp
  note rd = c2[THEN conjunct2, THEN conjunct2, THEN conjunct2, THEN conjunct2, THEN mp,
      OF conjI[OF k(1) conjI[OF k(2) k(3)]]]
  from rd a3 have b: "getOrParseChildren enum_tree enum_text 0 enum_state 1 = Inr (ArrayRef 0, enum_state)"
    by simp
  note tk = c3[THEN conjunct2, THEN conjunct1, THEN mp, OF enum_tokens]
  note d1 = tk[THEN conjunct1]
  note d2 = tk[THEN conjunct2, THEN conjunct2, THEN conjunct2, THEN conjunct1]
  note tk7 = tk[THEN conjunct2, THEN conjunct2, THEN conjunct2, THEN conjunct2, THEN conjunct2,
      THEN conjunct2, THEN spec, THEN mp, OF k(1)]
  from tk7 e(3) have d3: "childrenSaver enum_token_state 6 = None" by simp
  from tk[THEN conjunct2, THEN conjunct2, THEN conjunct1, THEN mp, OF e(2)]
  have d4: "\<exists>st1. getTokens enum_tree enum_text 0 emptyState (TsNode 6) = Inr (ArrayRef 1, st1)"
    by (elim exE conjE) (rule exI)
  from enum_first e(1) a1 a4 a2 a3 b enum_tokens e(2) d1 d4 d2 d3 show ?thesis
    by (intro conjI)
qed

section \<open>Containers without children\<close>

text \<open>
  Claim C7, as amended. For a container of one of the eleven kinds with no children,
  \<^verbatim>\<open>getNodes\<close> puts the scanner at the position that \<^verbatim>\<open>getContainerBodyPos\<close>
  returns and yields the comment lists of one pass of \<^verbatim>\<open>getCommentNodes\<close> with
  \<^verbatim>\<open>stopAtJsDoc\<close> off, and nothing else. That pass starts with the header-line skip
  like every other. So the object literal of \<^verbatim>\<open>({ /* only */ })\<close>, whose comment
  stands on the line of the open brace, yields no comment list, while the same literal
  with a line break between the open brace and the comment yields exactly one comment
  list that wraps the comment, scanning from the end of the open brace.
\<close>

theorem getNodes_no_children:
  "(kind (t container) \<in> commentNodeParserKinds \<and> length (elements (t container)) = 0 \<longrightarrow>
      (\<exists>createCommentList.
           getCreationFunction t container = Inr createCommentList
           \<and> getNodes t str sourceFile container =
               (case getContainerBodyPos t sourceFile container of
                  Inl e \<Rightarrow> Inl e
                | Inr bodyStartPos \<Rightarrow>
                    Inr (map ListNode
                           (fst (getCommentNodes createCommentList str False
                                   (setFullStartAndPos bodyStartPos
                                      (setParent container getScannerForSourceFile))))))))
   \<and> getContainerBodyPos only_tree 0 1 = Inr (node_end (only_tree 2))
   \<and> getNodes only_tree only_text_own_line 0 1 =
       Inr [ListNode (listOf ObjectLiteralElement 1 [blockComment 2 3 13 ''/* only */''])]
   \<and> getNodes only_tree only_text 0 1 = Inr []"
proof -
  have "getContainerBodyPos only_tree 0 1 = Inr (node_end (only_tree 2))"
    "getNodes only_tree only_text_own_line 0 1 =
       Inr [ListNode (listOf ObjectLiteralElement 1 [blockComment 2 3 13 ''/* only */''])]"
    "getNodes only_tree only_text 0 1 = Inr []"
    by code_simp+
  then show ?thesis using getNodes_no_children_general by blast
qed

theorem getNodes_no_children_witness:
  "kind (only_tree 1) \<in> commentNodeParserKinds \<and> length (elements (only_tree 1)) = 0
   \<and> getContainerBodyPos only_tree 0 1 = Inr 2
   \<and> getNodes only_tree only_text_own_line 0 1 =
       Inr (map ListNode
              (fst (getCommentNodes
                      (\<lambda>fullStart pos end cs.
                         \<lparr>commentListKind = ObjectLiteralElement, cl_fullStart = fullStart,
                          cl_pos = pos, cl_end = end, cl_parent = 1, comments = cs\<rparr>)
                      only_text_own_line False
                      (setFullStartAndPos 2 (setParent 1 getScannerForSourceFile)))))"
proof -
  have b: "getContainerBodyPos only_tree 0 1 = Inr 2" by code_simp
  have c: "getCreationFunction only_tree 1 = Inr (\<lambda>fullStart pos end cs.
                 \<lparr>commentListKind = ObjectLiteralElement, cl_fullStart = fullStart, cl_pos = pos,
                  cl_end = end, cl_parent = 1, comments = cs\<rparr>)"
    by (simp add: getCreationFunction_def getCtor_def isStatementContainerNode_def
        only_tree_def node0_def)
  from getNodes_no_children[where t = only_tree and container = 1
      and str = only_text_own_line and sourceFile = 0] only_kind only_empty
  show ?thesis unfolding b c by auto
qed

text \<open>
  The claim as stated fails on \<^verbatim>\<open>({ /* only */ })\<close>: the object literal has no
  properties, the body start is the end of its open brace, and the computed sequence is
  empty.
\<close>

theorem getNodes_no_children_counterexample:
  "kind (only_tree 1) = ObjectLiteralExpression \<and> elements (only_tree 1) = []
   \<and> getContainerBodyPos only_tree 0 1 = Inr 2
   \<and> getNodes only_tree only_text 0 1 = Inr []"
  by code_simp

section \<open>Body start of declaration bodies\<close>

lemma findLastSyntaxList_loop_find:
  "i \<le> length cs \<Longrightarrow>
   findLastSyntaxList_loop t cs i = find (\<lambda>c. kind (t c) = SyntaxList) (rev (take i cs))"
proof (induction i)
  case 0
  then show ?case by simp
next
  case (Suc i)
  then have "take (Suc i) cs = take i cs @ [cs ! i]"
    by (simp add: take_Suc_conv_app_nth)
  with Suc show ?case by simp
qed

lemma findLastSyntaxList_find:
  "findLastSyntaxList t n = find (\<lambda>c. kind (t c) = SyntaxList) (rev (getChildren (t n)))"
  by (simp add: findLastSyntaxList_def findLastSyntaxList_loop_find)

text \<open>
  Claim C8. For a class, interface, enum, type literal, class expression or object
  literal, \<^verbatim>\<open>getContainerBodyPos\<close> returns the end of the first open brace token
  among the children; without one, the \<^verbatim>\<open>pos\<close> of the last syntax list among the
  children; without that either, it throws the error about the missing syntax list.
  A node whose kind is none of the eleven container kinds makes it throw the
  not-implemented error. Both errors are thrown, never turned into a position.
\<close>

theorem getContainerBodyPos_declaration_body:
  "(kind (t c) \<in> {ClassDeclaration, InterfaceDeclaration, EnumDeclaration, TypeLiteral,
                  ClassExpression, ObjectLiteralExpression} \<longrightarrow>
      getContainerBodyPos t sf c =
        (case find (\<lambda>x. kind (t x) = OpenBraceToken) (getChildren (t c)) of
           Some brace \<Rightarrow> Inr (node_end (t brace))
         | None \<Rightarrow>
             (case find (\<lambda>x. kind (t x) = SyntaxList) (rev (getChildren (t c))) of
                Some syntaxList \<Rightarrow> Inr (pos (t syntaxList))
              | None \<Rightarrow> Inl SyntaxListNotFound)))
   \<and> (kind (t c) \<notin> commentNodeParserKinds \<longrightarrow>
        getContainerBodyPos t sf c = Inl NotImplementedError)"
proof (intro conjI impI)
  assume k: "kind (t c) \<in> {ClassDeclaration, InterfaceDeclaration, EnumDeclaration,
    TypeLiteral, ClassExpression, ObjectLiteralExpression}"
  then have "kind (t c) \<in> declarationBodyKinds" and "kind (t c) \<noteq> SourceFile"
    by (auto simp: declarationBodyKinds_def)
  then show "getContainerBodyPos t sf c =
        (case find (\<lambda>x. kind (t x) = OpenBraceToken) (getChildren (t c)) of
           Some brace \<Rightarrow> Inr (node_end (t brace))
         | None \<Rightarrow>
             (case find (\<lambda>x. kind (t x) = SyntaxList) (rev (getChildren (t c))) of
                Some syntaxList \<Rightarrow> Inr (pos (t syntaxList))
              | None \<Rightarrow> Inl SyntaxListNotFound))"
    by (simp add: getContainerBodyPos_def getTokenEnd_def getLastSyntaxListPos_def
        findLastSyntaxList_find split: option.splits)
next
  assume "kind (t c) \<notin> commentNodeParserKinds"
  then show "getContainerBodyPos t sf c = Inl NotImplementedError"
    by (simp add: getContainerBodyPos_def commentNodeParserKinds_def
        declarationBodyKinds_def)
qed

theorem getContainerBodyPos_declaration_body_witness:
  "getContainerBodyPos example_tree 0 1 = Inr 5
   \<and> getContainerBodyPos example_tree 0 6 = Inl SyntaxListNotFound
   \<and> getContainerBodyPos example_tree 0 3 = Inl NotImplementedError"
  using getContainerBodyPos_declaration_body [of example_tree 1 0]
    getContainerBodyPos_declaration_body [of example_tree 6 0]
    getContainerBodyPos_declaration_body [of example_tree 3 0]
  by (simp add: example_tree_def node0_def commentNodeParserKinds_def)

section \<open>The end of the trailing scan of a syntax list\<close>

text \<open>
  Claim C9. For a syntax list with a parent, \<^verbatim>\<open>getSearchEnd\<close> is the end of the
  parent when the parent is a source file. Otherwise it looks at the child of the parent
  that follows the syntax list: when that child is a close brace token the result is its
  end minus one, which is its start when the token is one character wide; when there is
  no such child or it is of another kind the result is the end of the source file.
  The result of \<^verbatim>\<open>parseChildSyntaxList\<close> ends with the comments of the scan behind
  the last child up to the first one whose \<^verbatim>\<open>pos\<close> exceeds that bound; no comment
  with a \<^verbatim>\<open>pos\<close> beyond the bound is among them.
\<close>

theorem parseChildSyntaxList_searchEnd:
  assumes "parent (t syntaxList) = Some p"
  shows "(kind (t p) = SourceFile \<longrightarrow>
            getSearchEnd t sourceFile syntaxList = Inr (int (node_end (t p))))
    \<and> (kind (t p) \<noteq> SourceFile \<longrightarrow>
         (\<forall>i. i < length (getChildren (t p)) \<and> getChildren (t p) ! i = syntaxList
               \<and> syntaxList \<notin> set (take i (getChildren (t p))) \<longrightarrow>
            (Suc i < length (getChildren (t p))
               \<and> kind (t (getChildren (t p) ! Suc i)) = CloseBraceToken \<longrightarrow>
                 getSearchEnd t sourceFile syntaxList =
                   Inr (int (node_end (t (getChildren (t p) ! Suc i))) - 1)
                 \<and> (node_end (t (getChildren (t p) ! Suc i))
                        = getStart (t (getChildren (t p) ! Suc i)) + 1 \<longrightarrow>
                      getSearchEnd t sourceFile syntaxList =
                        Inr (int (getStart (t (getChildren (t p) ! Suc i))))))
            \<and> (\<not> (Suc i < length (getChildren (t p))
                    \<and> kind (t (getChildren (t p) ! Suc i)) = CloseBraceToken) \<longrightarrow>
                 getSearchEnd t sourceFile syntaxList = Inr (int (node_end (t sourceFile))))))
    \<and> (\<forall>result st'. parseChildSyntaxList t str sourceFile st syntaxList = Inr (result, st') \<longrightarrow>
          (\<exists>children searchEnd body s1 trailing.
              getOrParseChildren t str sourceFile st syntaxList = Inr (children, st')
              \<and> getSearchEnd t sourceFile syntaxList = Inr searchEnd
              \<and> parseChildSyntaxList_loop t str
                    (setFullStartAndPos (pos (t syntaxList)) (setParent p getScannerForSourceFile))
                    (deref t st' children) = (body, s1)
              \<and> trailing = takeWhile (\<lambda>c. int (c_pos c) \<le> searchEnd)
                               (fst (scanUntilToken str s1))
              \<and> result = body @ map CommentNode trailing
              \<and> list_all (\<lambda>c. int (c_pos c) \<le> searchEnd) trailing))"
proof (intro conjI impI allI)
  show "getSearchEnd t sourceFile syntaxList = Inr (int (node_end (t p)))"
    if "kind (t p) = SourceFile"
    using that assms by (simp add: getSearchEnd_def)
next
  fix i
  assume k: "kind (t p) \<noteq> SourceFile"
    and i: "i < length (getChildren (t p)) \<and> getChildren (t p) ! i = syntaxList
               \<and> syntaxList \<notin> set (take i (getChildren (t p)))"
  from i have i': "i < length (getChildren (t p))" "getChildren (t p) ! i = syntaxList"
    "syntaxList \<notin> set (take i (getChildren (t p)))" by simp_all
  note at = getSearchEnd_at[OF assms k i', of sourceFile]
  {
    assume b: "Suc i < length (getChildren (t p))
               \<and> kind (t (getChildren (t p) ! Suc i)) = CloseBraceToken"
    with at show e: "getSearchEnd t sourceFile syntaxList =
                   Inr (int (node_end (t (getChildren (t p) ! Suc i))) - 1)" by simp
    assume "node_end (t (getChildren (t p) ! Suc i))
                        = getStart (t (getChildren (t p) ! Suc i)) + 1"
    with e show "getSearchEnd t sourceFile syntaxList =
                        Inr (int (getStart (t (getChildren (t p) ! Suc i))))" by simp
  }
  {
    assume "\<not> (Suc i < length (getChildren (t p))
                    \<and> kind (t (getChildren (t p) ! Suc i)) = CloseBraceToken)"
    with at show "getSearchEnd t sourceFile syntaxList = Inr (int (node_end (t sourceFile)))"
      by auto
  }
next
  fix result st'
  assume "parseChildSyntaxList t str sourceFile st syntaxList = Inr (result, st')"
  from parseChildSyntaxList_result[OF assms this]
  show "\<exists>children searchEnd body s1 trailing.
              getOrParseChildren t str sourceFile st syntaxList = Inr (children, st')
              \<and> getSearchEnd t sourceFile syntaxList = Inr searchEnd
              \<and> parseChildSyntaxList_loop t str
                    (setFullStartAndPos (pos (t syntaxList)) (setParent p getScannerForSourceFile))
                    (deref t st' children) = (body, s1)
              \<and> trailing = takeWhile (\<lambda>c. int (c_pos c) \<le> searchEnd)
                               (fst (scanUntilToken str s1))
              \<and> result = body @ map CommentNode trailing
              \<and> list_all (\<lambda>c. int (c_pos c) \<le> searchEnd) trailing" .
qed

theorem parseChildSyntaxList_searchEnd_witness:
  "parent (enum_tree 6) = Some 1
   \<and> getSearchEnd enum_tree 0 6 = Inr 29
   \<and> getSearchEnd enum_tree 0 6 = Inr (int (getStart (enum_tree 7)))
   \<and> map_sum id fst (parseChildSyntaxList enum_tree enum_text 0 emptyState 6) = Inr enum_children"
proof -
  have f: "kind (enum_tree 1) \<noteq> SourceFile" "getChildren (enum_tree 1) = [8, 9, 5, 6, 7]"
    "kind (enum_tree 7) = CloseBraceToken" "node_end (enum_tree 7) = 30"
    "getStart (enum_tree 7) = 29"
    by code_simp+
  have r: "map_sum id fst (parseChildSyntaxList enum_tree enum_text 0 emptyState 6) = Inr enum_children"
    by code_simp
  from parseChildSyntaxList_searchEnd[where t = enum_tree and syntaxList = 6 and p = 1
      and sourceFile = 0 and str = enum_text and st = emptyState, OF enum_parent]
  have "\<forall>i. i < length (getChildren (enum_tree 1)) \<and> getChildren (enum_tree 1) ! i = 6
               \<and> 6 \<notin> set (take i (getChildren (enum_tree 1))) \<longrightarrow>
            (Suc i < length (getChildren (enum_tree 1))
               \<and> kind (enum_tree (getChildren (enum_tree 1) ! Suc i)) = CloseBraceToken \<longrightarrow>
                 getSearchEnd enum_tree 0 6 =
                   Inr (int (node_end (enum_tree (getChildren (enum_tree 1) ! Suc i))) - 1))"
    using f(1) by blast
  from this[rule_format, of 3] f have "getSearchEnd enum_tree 0 6 = Inr 29" by simp
  with f r enum_parent show ?thesis by simp
qed

section \<open>Classification of containers\<close>

text \<open>
  Claim C10, as amended. \<^verbatim>\<open>shouldParseChildren\<close> accepts a node exactly when its
  kind is one of the eleven container kinds and its \<^verbatim>\<open>pos\<close> differs from its
  \<^verbatim>\<open>end\<close>; a node of zero length is rejected whatever its kind. The predicate is a
  guard for the callers only: \<^verbatim>\<open>getOrParseChildren\<close> and \<^verbatim>\<open>getNodes\<close> do not ask
  it. Called for a node of a container kind that has zero length and no children,
  \<^verbatim>\<open>getOrParseChildren\<close> computes the sequence of \<^verbatim>\<open>getNodes\<close>, the comment lists
  of one pass from the body start, and stores it in \<^verbatim>\<open>childrenSaver\<close> as for any
  other container.
\<close>

theorem shouldParseChildren_zero_length:
  "(shouldParseChildren n \<longleftrightarrow>
      kind n \<in> {SourceFile, Block, ModuleBlock, CaseClause, DefaultClause,
                ClassDeclaration, InterfaceDeclaration, EnumDeclaration, ClassExpression,
                TypeLiteral, ObjectLiteralExpression}
      \<and> pos n \<noteq> node_end n)
   \<and> (pos n = node_end n \<longrightarrow> \<not> shouldParseChildren n)
   \<and> (kind (t c) \<in> commentNodeParserKinds \<and> pos (t c) = node_end (t c)
        \<and> elements (t c) = [] \<and> getContainerBodyPos t sourceFile c = Inr bodyStartPos
        \<and> childrenSaver st c = None \<longrightarrow>
      \<not> shouldParseChildren (t c)
      \<and> (\<exists>createCommentList nodes.
            getCreationFunction t c = Inr createCommentList
            \<and> nodes = map ListNode
                        (fst (getCommentNodes createCommentList str False
                                (setFullStartAndPos bodyStartPos
                                   (setParent c getScannerForSourceFile))))
            \<and> getNodes t str sourceFile c = Inr nodes
            \<and> getOrParseChildren t str sourceFile st c =
                Inr (ArrayRef (length (arrays st)),
                     st\<lparr>arrays := arrays st @ [nodes],
                        childrenSaver :=
                          (childrenSaver st)(c \<mapsto> ArrayRef (length (arrays st)))\<rparr>)))"
proof (intro conjI impI)
  show "shouldParseChildren n \<longleftrightarrow>
      kind n \<in> {SourceFile, Block, ModuleBlock, CaseClause, DefaultClause,
                ClassDeclaration, InterfaceDeclaration, EnumDeclaration, ClassExpression,
                TypeLiteral, ObjectLiteralExpression}
      \<and> pos n \<noteq> node_end n"
    by (simp add: shouldParseChildren_def commentNodeParserKinds_def)
  show "\<not> shouldParseChildren n" if "pos n = node_end n"
    using that by (simp add: shouldParseChildren_def)
next
  assume a: "kind (t c) \<in> commentNodeParserKinds \<and> pos (t c) = node_end (t c)
        \<and> elements (t c) = [] \<and> getContainerBodyPos t sourceFile c = Inr bodyStartPos
        \<and> childrenSaver st c = None"
  then show "\<not> shouldParseChildren (t c)" by (simp add: shouldParseChildren_def)
  from a have k: "kind (t c) \<in> commentNodeParserKinds" and e: "length (elements (t c)) = 0"
    and b: "getContainerBodyPos t sourceFile c = Inr bodyStartPos"
    and m: "childrenSaver st c = None" by simp_all
  from getNodes_no_children_general[where t = t and container = c and str = str
      and sourceFile = sourceFile, OF k e] b
  obtain mk where mk: "getCreationFunction t c = Inr mk"
    and g: "getNodes t str sourceFile c =
              Inr (map ListNode (fst (getCommentNodes mk str False
                     (setFullStartAndPos bodyStartPos (setParent c getScannerForSourceFile)))))"
    by auto
  from k have ns: "\<not> isSyntaxList (t c)"
    by (auto simp: isSyntaxList_def commentNodeParserKinds_def)
  let ?nodes = "map ListNode (fst (getCommentNodes mk str False
                     (setFullStartAndPos bodyStartPos (setParent c getScannerForSourceFile))))"
  have "getOrParseChildren t str sourceFile st c =
                Inr (ArrayRef (length (arrays st)),
                     st\<lparr>arrays := arrays st @ [?nodes],
                        childrenSaver :=
                          (childrenSaver st)(c \<mapsto> ArrayRef (length (arrays st)))\<rparr>)"
    using ns m g by (simp add: getOrParseChildren_def newArray_def)
  with mk g show "\<exists>createCommentList nodes.
            getCreationFunction t c = Inr createCommentList
            \<and> nodes = map ListNode
                        (fst (getCommentNodes createCommentList str False
                                (setFullStartAndPos bodyStartPos
                                   (setParent c getScannerForSourceFile))))
            \<and> getNodes t str sourceFile c = Inr nodes
            \<and> getOrParseChildren t str sourceFile st c =
                Inr (ArrayRef (length (arrays st)),
                     st\<lparr>arrays := arrays st @ [nodes],
                        childrenSaver :=
                          (childrenSaver st)(c \<mapsto> ArrayRef (length (arrays st)))\<rparr>)"
    by (intro exI[of _ mk] exI[of _ ?nodes] conjI) simp_all
qed

theorem shouldParseChildren_zero_length_witness:
  "shouldParseChildren (example_tree 1) \<and> \<not> shouldParseChildren (example_tree 5)
   \<and> \<not> shouldParseChildren (example_tree 3)
   \<and> kind (zero_tree 1) \<in> commentNodeParserKinds \<and> pos (zero_tree 1) = node_end (zero_tree 1)
   \<and> elements (zero_tree 1) = [] \<and> getContainerBodyPos zero_tree 0 1 = Inr 4
   \<and> childrenSaver emptyState 1 = None
   \<and> \<not> shouldParseChildren (zero_tree 1)
   \<and> (\<exists>nodes. getNodes zero_tree zero_text 0 1 = Inr nodes
         \<and> getOrParseChildren zero_tree zero_text 0 emptyState 1 =
             Inr (ArrayRef 0,
                  emptyState\<lparr>arrays := [nodes], childrenSaver := [1 \<mapsto> ArrayRef 0]\<rparr>))"
proof -
  have p: "kind (zero_tree 1) \<in> commentNodeParserKinds \<and> pos (zero_tree 1) = node_end (zero_tree 1)
        \<and> elements (zero_tree 1) = [] \<and> getContainerBodyPos zero_tree 0 1 = Inr 4
        \<and> childrenSaver emptyState 1 = None"
    by code_simp
  have a: "arrays emptyState = []" "childrenSaver emptyState = Map.empty"
    by (simp_all add: emptyState_def)
  note z = shouldParseChildren_zero_length[of "example_tree 1" zero_tree 1 0 4 emptyState zero_text,
      THEN conjunct2, THEN conjunct2, THEN mp, OF p]
  from z[THEN conjunct2] obtain mk nodes where
    "getNodes zero_tree zero_text 0 1 = Inr nodes"
    "getOrParseChildren zero_tree zero_text 0 emptyState 1 =
                Inr (ArrayRef (length (arrays emptyState)),
                     emptyState\<lparr>arrays := arrays emptyState @ [nodes],
                        childrenSaver :=
                          (childrenSaver emptyState)(1 \<mapsto> ArrayRef (length (arrays emptyState)))\<rparr>)"
    by (elim exE conjE)
  then have e: "\<exists>nodes. getNodes zero_tree zero_text 0 1 = Inr nodes
         \<and> getOrParseChildren zero_tree zero_text 0 emptyState 1 =
             Inr (ArrayRef 0,
                  emptyState\<lparr>arrays := [nodes], childrenSaver := [1 \<mapsto> ArrayRef 0]\<rparr>)"
    unfolding a by (intro exI[of _ nodes]) simp
  have x: "shouldParseChildren (example_tree 1) \<and> \<not> shouldParseChildren (example_tree 5)
   \<and> \<not> shouldParseChildren (example_tree 3)"
    using shouldParseChildren_zero_length [of "example_tree 1"]
      shouldParseChildren_zero_length [of "example_tree 5"]
      shouldParseChildren_zero_length [of "example_tree 3"]
    by (simp add: example_tree_def node0_def)
  from x p z[THEN conjunct1] e show ?thesis by (intro conjI) simp_all
qed

text \<open>
  The claim as stated fails for the block of zero length in the last example text: the
  predicate rejects the node, yet \<^verbatim>\<open>getOrParseChildren\<close> returns for it a sequence
  that holds the comment list of \<^verbatim>\<open>// c\<close> and records it in \<^verbatim>\<open>childrenSaver\<close>.
\<close>

theorem shouldParseChildren_counterexample:
  "kind (zero_tree 1) = Block \<and> pos (zero_tree 1) = node_end (zero_tree 1)
   \<and> \<not> shouldParseChildren (zero_tree 1)
   \<and> getNodes zero_tree zero_text 0 1 =
       Inr [ListNode (listOf Statement 1 [lineComment 4 5 9 ''// c''])]
   \<and> (case getOrParseChildren zero_tree zero_text 0 emptyState 1 of
         Inl e \<Rightarrow> False
       | Inr (r, st') \<Rightarrow>
           r = ArrayRef 0 \<and> hasParsedChildren zero_tree st' 1
           \<and> deref zero_tree st' r =
               [ListNode (listOf Statement 1 [lineComment 4 5 9 ''// c''])])"
  by code_simp

end
